theory Spec2Isabelle
  imports Main "HOL-Library.Word"
begin

section \<open>The write path of the distributor (pkg/distributor/distributor.go)\<close>

text \<open>
  A shallow embedding of \<^verbatim>\<open>Distributor.Push\<close> and the functions it calls:
  \<^verbatim>\<open>truncateLines\<close>, \<^verbatim>\<open>parseStreamLabels\<close>, \<^verbatim>\<open>sendToIngester\<close> and
  \<^verbatim>\<open>executePushRequest\<close>. The collaborators whose code lies outside that file (the label
  parser, the validator, the rate limiter, the ingester ring, the client pool and the
  ingesters themselves) are parameters of the model, collected in the record \<open>deps\<close>.
\<close>

subsection \<open>Data model\<close>

text \<open>\<^verbatim>\<open>logproto.Entry\<close> and \<^verbatim>\<open>logproto.Stream\<close>. A Go string is a sequence of bytes, and
  \<^verbatim>\<open>len\<close> counts bytes: a \<open>string\<close> here is a list of 8-bit characters.\<close>

record Entry =
  Timestamp :: int
  Line :: string

record Stream =
  Labels :: string
  Entries :: "Entry list"

text \<open>Errors are values. \<^verbatim>\<open>httpgrpc.Errorf(code, format, args...)\<close> is kept structured: the
  status code, the format constant (the two constants of package validation that the file
  uses) and the arguments that are formatted into the message. \<open>Err\<close> is an error
  produced by a collaborator or by the context.\<close>

datatype msg = InvalidLabelsErrorMsg | RateLimitedErrorMsg

datatype error =
    Err string
  | HTTPError int msg "arg list"
and arg = S string | I int | E error

text \<open>Modelled from the spec: \<^verbatim>\<open>validationContext\<close> is declared with the validator, outside
  the sources. The fields are the limits that the specification lists; this file reads
  \<^verbatim>\<open>maxLineSize\<close> (a Go \<^verbatim>\<open>int\<close>: it is compared with \<^verbatim>\<open>len(e.Line)\<close>),
  \<^verbatim>\<open>maxLineSizeTruncate\<close> and \<^verbatim>\<open>userID\<close>.\<close>

record validationContext =
  maxLabelNameLength :: int
  maxLabelValueLength :: int
  maxLabelNamesPerSeries :: int
  maxLineSize :: int
  maxLineSizeTruncate :: bool
  creationGracePeriod :: int
  rejectOldSampleMaxAge :: int
  userID :: string

text \<open>The counter vectors of package validation, indexed by (reason, tenant). The Go
  counters hold \<^verbatim>\<open>float64\<close> values advanced by \<^verbatim>\<open>float64(n)\<close> for an integer count
  \<open>n\<close>; the model keeps the integer.\<close>

datatype reason = InvalidLabels | RateLimited | LineTooLong

record metrics =
  DiscardedSamples :: "reason \<times> string \<Rightarrow> int"
  DiscardedBytes :: "reason \<times> string \<Rightarrow> int"
  MutatedSamples :: "reason \<times> string \<Rightarrow> int"
  MutatedBytes :: "reason \<times> string \<Rightarrow> int"

definition Add :: "('k \<Rightarrow> int) \<Rightarrow> 'k \<Rightarrow> int \<Rightarrow> ('k \<Rightarrow> int)" where
  "Add vec k n = vec(k := vec k + n)"

subsection \<open>truncateLines\<close>

text \<open>The loop of \<^verbatim>\<open>truncateLines\<close> over \<^verbatim>\<open>stream.Entries\<close>, with its two local
  counters \<^verbatim>\<open>truncatedSamples\<close> and \<^verbatim>\<open>truncatedBytes\<close> as an accumulator. The
  slice expression \<^verbatim>\<open>e.Line[:maxSize]\<close> panics for a negative \<^verbatim>\<open>maxSize\<close>: the result
  is \<open>None\<close> there. Where the line is longer than \<^verbatim>\<open>maxSize\<close> the statement
  \<^verbatim>\<open>truncatedBytes = len(e.Line) - maxSize\<close> is an assignment.\<close>

fun truncateEntries :: "int \<Rightarrow> Entry list \<Rightarrow> int \<times> int \<Rightarrow> (Entry list \<times> int \<times> int) option" where
  "truncateEntries maxSize [] (truncatedSamples, truncatedBytes) =
     Some ([], truncatedSamples, truncatedBytes)"
| "truncateEntries maxSize (e # es) (truncatedSamples, truncatedBytes) =
     (if maxSize \<noteq> 0 \<and> int (length (Line e)) > maxSize then
        (if maxSize < 0 then None
         else (case truncateEntries maxSize es
                      (truncatedSamples + 1, int (length (Line e)) - maxSize) of
                 None \<Rightarrow> None
               | Some (es', r) \<Rightarrow> Some (e\<lparr>Line := take (nat maxSize) (Line e)\<rparr> # es', r)))
      else (case truncateEntries maxSize es (truncatedSamples, truncatedBytes) of
              None \<Rightarrow> None
            | Some (es', r) \<Rightarrow> Some (e # es', r)))"

definition truncateLines :: "validationContext \<Rightarrow> Stream \<Rightarrow> metrics \<Rightarrow> (Stream \<times> metrics) option" where
  "truncateLines vContext s m =
     (if \<not> maxLineSizeTruncate vContext then Some (s, m)
      else (case truncateEntries (maxLineSize vContext) (Entries s) (0, 0) of
              None \<Rightarrow> None
            | Some (es', truncatedSamples, truncatedBytes) \<Rightarrow>
                Some (s\<lparr>Entries := es'\<rparr>,
                      m\<lparr>MutatedSamples :=
                          Add (MutatedSamples m) (LineTooLong, userID vContext) truncatedSamples,
                        MutatedBytes :=
                          Add (MutatedBytes m) (LineTooLong, userID vContext) truncatedBytes\<rparr>)))"

subsection \<open>The label cache\<close>

text \<open>\<^verbatim>\<open>lru.Cache\<close> of hashicorp/golang-lru, as this file uses it (\<^verbatim>\<open>Get\<close> and \<^verbatim>\<open>Add\<close>
  on string keys and string values): the entries from the most recently used to the
  oldest, and the capacity given to \<^verbatim>\<open>lru.New\<close>. \<^verbatim>\<open>Get\<close> moves a hit to the front;
  \<^verbatim>\<open>Add\<close> updates and moves a present key to the front, and otherwise puts the entry at
  the front and removes the oldest entry when the capacity is exceeded.\<close>

record Cache =
  capacity :: nat
  items :: "(string \<times> string) list"

definition maxLabelCacheSize :: nat where
  "maxLabelCacheSize = 100000"

definition lru_New :: "nat \<Rightarrow> Cache" where
  "lru_New n = \<lparr>capacity = n, items = []\<rparr>"

definition lru_Get :: "string \<Rightarrow> Cache \<Rightarrow> string option \<times> Cache" where
  "lru_Get k c =
     (case map_of (items c) k of
        None \<Rightarrow> (None, c)
      | Some v \<Rightarrow> (Some v, c\<lparr>items := (k, v) # filter (\<lambda>p. fst p \<noteq> k) (items c)\<rparr>))"

definition lru_Add :: "string \<Rightarrow> string \<Rightarrow> Cache \<Rightarrow> Cache" where
  "lru_Add k v c =
     (case map_of (items c) k of
        Some old \<Rightarrow> c\<lparr>items := (k, v) # filter (\<lambda>p. fst p \<noteq> k) (items c)\<rparr>
      | None \<Rightarrow>
          (let xs = (k, v) # items c
           in c\<lparr>items := (if length xs > capacity c then butlast xs else xs)\<rparr>))"

subsection \<open>The collaborators\<close>

text \<open>\<^verbatim>\<open>labels.Labels\<close> of Prometheus: a list of (name, value) pairs.\<close>

type_synonym labels = "(string \<times> string) list"

text \<open>\<^verbatim>\<open>ring.InstanceDesc\<close> (the address is the only field the file reads) and
  \<^verbatim>\<open>ring.ReplicationSet\<close>.\<close>

record InstanceDesc =
  Addr :: string

record ReplicationSet =
  Instances :: "InstanceDesc list"
  MaxErrors :: int

text \<open>The functions of other packages that \<^verbatim>\<open>Push\<close> calls, as parameters:
  \<^verbatim>\<open>logql.ParseLabels\<close>, \<^verbatim>\<open>Labels.String\<close>, \<^verbatim>\<open>Validator.ValidateLabels\<close>,
  \<^verbatim>\<open>Validator.ValidateEntry\<close> (\<open>None\<close> is the nil error),
  \<^verbatim>\<open>Validator.getValidationContextForTime\<close> at the time of the call,
  \<^verbatim>\<open>util.TokenFor\<close>, \<^verbatim>\<open>RateLimiter.AllowN\<close> and \<^verbatim>\<open>RateLimiter.Limit\<close> at the time of the
  call (the limit already converted to \<^verbatim>\<open>int\<close>), \<^verbatim>\<open>ReadRing.Get\<close> in write mode,
  \<^verbatim>\<open>Pool.GetClientFor\<close> (\<open>None\<close>: a client was returned) and the \<^verbatim>\<open>Push\<close> RPC of the
  ingester at an address.\<close>

record deps =
  ParseLabels :: "string \<Rightarrow> error + labels"
  LabelsString :: "labels \<Rightarrow> string"
  ValidateLabels :: "validationContext \<Rightarrow> labels \<Rightarrow> Stream \<Rightarrow> error option"
  ValidateEntry :: "validationContext \<Rightarrow> string \<Rightarrow> Entry \<Rightarrow> error option"
  getValidationContextForTime :: "string \<Rightarrow> validationContext"
  TokenFor :: "string \<Rightarrow> string \<Rightarrow> 32 word"
  AllowN :: "string \<Rightarrow> int \<Rightarrow> bool"
  Limit :: "string \<Rightarrow> int"
  ringGet :: "32 word \<Rightarrow> error + ReplicationSet"
  GetClientFor :: "string \<Rightarrow> error option"
  ingesterPush :: "string \<Rightarrow> Stream list \<Rightarrow> error option"

subsection \<open>parseStreamLabels\<close>

definition parseStreamLabels ::
  "deps \<Rightarrow> validationContext \<Rightarrow> string \<Rightarrow> Stream \<Rightarrow> Cache \<Rightarrow> (error + string) \<times> Cache" where
  "parseStreamLabels D vContext key s cache =
     (case lru_Get key cache of
        (Some labelVal, cache') \<Rightarrow> (Inr labelVal, cache')
      | (None, cache') \<Rightarrow>
          (case ParseLabels D key of
             Inl e \<Rightarrow> (Inl (HTTPError 400 InvalidLabelsErrorMsg [S key, E e]), cache')
           | Inr ls \<Rightarrow>
               (case ValidateLabels D vContext ls s of
                  Some e \<Rightarrow> (Inl e, cache')
                | None \<Rightarrow>
                    (let lsVal = LabelsString D ls
                     in (Inr lsVal, lru_Add key lsVal cache')))))"

subsection \<open>The state that Push reads and writes\<close>

text \<open>The label cache of the distributor, the counter vectors of package validation, the
  two counter vectors of the distributor, and the requests that the ingesters have
  received so far (address and payload of every \<^verbatim>\<open>Push\<close> RPC, in the order of the
  calls).\<close>

record global_state =
  labelCache :: Cache
  validation :: metrics
  ingesterAppends :: "string \<Rightarrow> int"
  ingesterAppendFailures :: "string \<Rightarrow> int"
  rpcLog :: "(string \<times> Stream list) list"

text \<open>A \<^verbatim>\<open>*logproto.Stream\<close> is an address; \<open>store\<close> maps an address to the value of
  the variable that lives there.\<close>

type_synonym addr = nat

record streamTracker =
  stream :: addr
  successBucket :: "32 word"
  failureBucket :: "32 word"

text \<open>The channels hold their buffered values; both are made with capacity 1. The field
  is \<open>doneCh\<close> for the channel \<^verbatim>\<open>done\<close> and \<open>errCh\<close> for \<^verbatim>\<open>err\<close>.\<close>

record pushTracker =
  doneCh :: "unit list"
  errCh :: "error list"
  pending :: "32 word"
  failed :: bool

subsection \<open>Push: the preparation of the streams\<close>

text \<open>The inner loop over \<^verbatim>\<open>stream.Entries\<close>: an entry that \<^verbatim>\<open>ValidateEntry\<close> rejects
  assigns \<^verbatim>\<open>validationErr\<close> and is skipped; the others are kept in order and counted. The
  accumulator is (\<^verbatim>\<open>validatedSamplesSize\<close>, \<^verbatim>\<open>validatedSamplesCount\<close>,
  \<^verbatim>\<open>validationErr\<close>).\<close>

fun validateEntries ::
  "deps \<Rightarrow> validationContext \<Rightarrow> string \<Rightarrow> Entry list \<Rightarrow> int \<times> int \<times> error option
     \<Rightarrow> Entry list \<times> int \<times> int \<times> error option" where
  "validateEntries D vContext lbls [] acc = ([], acc)"
| "validateEntries D vContext lbls (entry # es) (sz, cnt, verr) =
     (case ValidateEntry D vContext lbls entry of
        Some e \<Rightarrow> validateEntries D vContext lbls es (sz, cnt, Some e)
      | None \<Rightarrow>
          (case validateEntries D vContext lbls es
                  (sz + int (length (Line entry)), cnt + 1, verr) of
             (kept, r) \<Rightarrow> (entry # kept, r)))"

text \<open>The variables of the first loop of \<^verbatim>\<open>Push\<close>. The range variable \<^verbatim>\<open>stream\<close> of
  \<^verbatim>\<open>for _, stream := range req.Streams\<close> is one variable for the whole loop (the
  per-iteration variables of Go 1.22 apply to modules that declare that version;
  \<^verbatim>\<open>distributor.go\<close> imports \<^verbatim>\<open>weaveworks/common\<close> and \<^verbatim>\<open>logql.ParseLabels\<close>, which
  date the module well before it). It lives at the address \<open>streamVar\<close>:
  every iteration assigns the next element of the request to it, and
  \<^verbatim>\<open>&stream\<close> is \<open>streamVar\<close> in every iteration.\<close>

record prep =
  store :: "addr \<Rightarrow> Stream"
  streams :: "streamTracker list"
  keys :: "32 word list"
  validatedSamplesSize :: int
  validatedSamplesCount :: int
  validationErr :: "error option"
  globals :: global_state

definition streamVar :: addr where
  "streamVar = 0"

definition bytes :: "Entry list \<Rightarrow> int" where
  "bytes es = foldl (\<lambda>b e. b + int (length (Line e))) 0 es"

text \<open>One iteration of the loop, for the element \<open>reqStream\<close> of the request. \<open>None\<close> is
  the panic of \<^verbatim>\<open>truncateLines\<close>.\<close>

definition pushStream :: "deps \<Rightarrow> validationContext \<Rightarrow> string \<Rightarrow> Stream \<Rightarrow> prep \<Rightarrow> prep option" where
  "pushStream D vContext uid reqStream st0 =
     (let st = st0\<lparr>store := (store st0)(streamVar := reqStream)\<rparr>
      in if length (Entries (store st streamVar)) = 0 then Some st
         else (case truncateLines vContext (store st streamVar) (validation (globals st)) of
                 None \<Rightarrow> None
               | Some (s1, m1) \<Rightarrow>
                   (case parseStreamLabels D vContext (Labels s1) s1 (labelCache (globals st)) of
                      (Inl e, cache1) \<Rightarrow>
                        Some (st\<lparr>store := (store st)(streamVar := s1\<lparr>Labels := ''''\<rparr>),
                                 validationErr := Some e,
                                 globals := (globals st)
                                   \<lparr>labelCache := cache1,
                                    validation := m1
                                      \<lparr>DiscardedSamples :=
                                         Add (DiscardedSamples m1) (InvalidLabels, uid)
                                           (int (length (Entries s1))),
                                       DiscardedBytes :=
                                         Add (DiscardedBytes m1) (InvalidLabels, uid)
                                           (bytes (Entries s1))\<rparr>\<rparr>\<rparr>)
                    | (Inr lbls, cache1) \<Rightarrow>
                        (case validateEntries D vContext lbls (Entries s1)
                                (validatedSamplesSize st, validatedSamplesCount st,
                                 validationErr st) of
                           (kept, sz, cnt, verr) \<Rightarrow>
                             Some (st\<lparr>store := (store st)
                                        (streamVar := s1\<lparr>Labels := lbls, Entries := kept\<rparr>),
                                      streams := streams st @
                                        [\<lparr>stream = streamVar, successBucket = 0,
                                          failureBucket = 0\<rparr>],
                                      keys := keys st @ [TokenFor D uid lbls],
                                      validatedSamplesSize := sz,
                                      validatedSamplesCount := cnt,
                                      validationErr := verr,
                                      globals := (globals st)
                                        \<lparr>labelCache := cache1, validation := m1\<rparr>\<rparr>)))))"

fun pushStreams :: "deps \<Rightarrow> validationContext \<Rightarrow> string \<Rightarrow> Stream list \<Rightarrow> prep \<Rightarrow> prep option" where
  "pushStreams D vContext uid [] st = Some st"
| "pushStreams D vContext uid (s # ss) st =
     (case pushStream D vContext uid s st of
        None \<Rightarrow> None
      | Some st' \<Rightarrow> pushStreams D vContext uid ss st')"

subsection \<open>Push: the replication sets\<close>

text \<open>The Go maps \<^verbatim>\<open>streamsByIngester\<close> and \<^verbatim>\<open>descByIngester\<close> as association lists, a
  key at the place where it was first stored. (The iteration order of a Go map is not
  specified; the only loop over these maps starts one goroutine per key, and the
  goroutines run concurrently.) Reading an absent key gives the zero value. A
  \<^verbatim>\<open>*streamTracker\<close> made by \<^verbatim>\<open>&streams[i]\<close> is the index \<open>i\<close>.\<close>

fun mapSet :: "string \<Rightarrow> 'v \<Rightarrow> (string \<times> 'v) list \<Rightarrow> (string \<times> 'v) list" where
  "mapSet k v [] = [(k, v)]"
| "mapSet k v ((k', v') # m) = (if k = k' then (k, v) # m else (k', v') # mapSet k v m)"

definition mapGet :: "(string \<times> 'v) list \<Rightarrow> string \<Rightarrow> 'v \<Rightarrow> 'v" where
  "mapGet m k zero = (case map_of m k of None \<Rightarrow> zero | Some v \<Rightarrow> v)"

record routing =
  rstreams :: "streamTracker list"
  streamsByIngester :: "(string \<times> nat list) list"
  descByIngester :: "(string \<times> InstanceDesc) list"

fun routeInstances :: "nat \<Rightarrow> InstanceDesc list \<Rightarrow> routing \<Rightarrow> routing" where
  "routeInstances i [] r = r"
| "routeInstances i (ing # ings) r =
     routeInstances i ings
       (r\<lparr>streamsByIngester :=
            mapSet (Addr ing) (mapGet (streamsByIngester r) (Addr ing) [] @ [i])
              (streamsByIngester r),
          descByIngester := mapSet (Addr ing) ing (descByIngester r)\<rparr>)"

text \<open>The loop \<^verbatim>\<open>for i, key := range keys\<close>. A failed lookup returns its error at once.
  \<^verbatim>\<open>int32(n)\<close> keeps the low 32 bits.\<close>

fun ringLoop :: "deps \<Rightarrow> nat \<Rightarrow> 32 word list \<Rightarrow> routing \<Rightarrow> error + routing" where
  "ringLoop D i [] r = Inr r"
| "ringLoop D i (key # ks) r =
     (case ringGet D key of
        Inl e \<Rightarrow> Inl e
      | Inr replicationSet \<Rightarrow>
          ringLoop D (Suc i) ks
            (routeInstances i (Instances replicationSet)
               (r\<lparr>rstreams := (rstreams r)
                    [i := (rstreams r ! i)
                       \<lparr>successBucket :=
                          word_of_int (int (length (Instances replicationSet))
                                       - MaxErrors replicationSet),
                        failureBucket := word_of_int (MaxErrors replicationSet)\<rparr>]\<rparr>)))"

subsection \<open>The goroutines of one request\<close>

text \<open>Where a goroutine running \<^verbatim>\<open>sendToIngester\<close> stands: not yet past
  \<^verbatim>\<open>executePushRequest\<close>; at the head of one of the two loops over its streams, with the
  result of the RPC and the streams still to visit; or, inside an iteration, before
  \<^verbatim>\<open>pending.Dec()\<close>, before the send on \<^verbatim>\<open>done\<close>, before \<^verbatim>\<open>failed.Swap(true)\<close> or
  before the send on \<^verbatim>\<open>err\<close>. Every step is one atomic operation on shared state.\<close>

datatype pc =
    Spawned
  | Loop "error option" "nat list"
  | PendingDec "nat list"
  | DoneSend "nat list"
  | FailedSwap error "nat list"
  | ErrSend error "nat list"

record task =
  ingester :: InstanceDesc
  tstreams :: "nat list"
  at :: pc

text \<open>What \<^verbatim>\<open>Push\<close> returns: \<^verbatim>\<open>(&logproto.PushResponse{}, validationErr)\<close> or
  \<^verbatim>\<open>(nil, err)\<close>.\<close>

datatype pushReturn = Response "error option" | Failure error

text \<open>A request in flight: the range variable's store, the slice \<^verbatim>\<open>streams\<close>, the push
  tracker, the goroutines, what \<^verbatim>\<open>Push\<close> has returned (\<open>None\<close> while it waits in its
  \<^verbatim>\<open>select\<close>), the local \<^verbatim>\<open>validationErr\<close>, and the global state. \<open>doneSent\<close> and
  \<open>errSent\<close> count the values that the two channels have accepted since they were
  made.\<close>

record config =
  cstore :: "addr \<Rightarrow> Stream"
  trackers :: "streamTracker list"
  tracker :: pushTracker
  tasks :: "task list"
  returned :: "pushReturn option"
  retValidationErr :: "error option"
  cglobals :: global_state
  doneSent :: nat
  errSent :: nat

definition executePushRequest ::
  "deps \<Rightarrow> InstanceDesc \<Rightarrow> Stream list \<Rightarrow> global_state \<Rightarrow> error option \<times> global_state" where
  "executePushRequest D ing payload g =
     (case GetClientFor D (Addr ing) of
        Some e \<Rightarrow> (Some e, g)
      | None \<Rightarrow>
          (let r = ingesterPush D (Addr ing) payload;
               g1 = g\<lparr>rpcLog := rpcLog g @ [(Addr ing, payload)],
                      ingesterAppends := Add (ingesterAppends g) (Addr ing) 1\<rparr>
           in (r, case r of
                    None \<Rightarrow> g1
                  | Some e \<Rightarrow> g1\<lparr>ingesterAppendFailures :=
                                    Add (ingesterAppendFailures g1) (Addr ing) 1\<rparr>)))"

definition setAt :: "nat \<Rightarrow> pc \<Rightarrow> config \<Rightarrow> config" where
  "setAt n p c = c\<lparr>tasks := (tasks c)[n := (tasks c ! n)\<lparr>at := p\<rparr>]\<rparr>"

text \<open>One step of goroutine \<open>n\<close>, which runs \<^verbatim>\<open>sendToIngester\<close> for the task \<open>t\<close> and
  stands at the given place. A send on a full channel does not proceed.\<close>

fun sendToIngester :: "deps \<Rightarrow> nat \<Rightarrow> task \<Rightarrow> pc \<Rightarrow> config \<Rightarrow> config" where
  "sendToIngester D n t Spawned c =
     (let payload = map (\<lambda>i. cstore c (stream (trackers c ! i))) (tstreams t)
      in (case executePushRequest D (ingester t) payload (cglobals c) of
            (r, g') \<Rightarrow> setAt n (Loop r (tstreams t)) (c\<lparr>cglobals := g'\<rparr>)))"
| "sendToIngester D n t (Loop r []) c = c"
| "sendToIngester D n t (Loop None (i # rest)) c =
     (let v = successBucket (trackers c ! i) - 1;
          c' = c\<lparr>trackers := (trackers c)[i := (trackers c ! i)\<lparr>successBucket := v\<rparr>]\<rparr>
      in if 0 < sint v then setAt n (Loop None rest) c' else setAt n (PendingDec rest) c')"
| "sendToIngester D n t (PendingDec rest) c =
     (let v = pending (tracker c) - 1;
          c' = c\<lparr>tracker := (tracker c)\<lparr>pending := v\<rparr>\<rparr>
      in if v = 0 then setAt n (DoneSend rest) c' else setAt n (Loop None rest) c')"
| "sendToIngester D n t (DoneSend rest) c =
     (if length (doneCh (tracker c)) < 1
      then setAt n (Loop None rest)
             (c\<lparr>tracker := (tracker c)\<lparr>doneCh := doneCh (tracker c) @ [()]\<rparr>,
                doneSent := doneSent c + 1\<rparr>)
      else c)"
| "sendToIngester D n t (Loop (Some e) (i # rest)) c =
     (let v = failureBucket (trackers c ! i) - 1;
          c' = c\<lparr>trackers := (trackers c)[i := (trackers c ! i)\<lparr>failureBucket := v\<rparr>]\<rparr>
      in if 0 < sint v then setAt n (Loop (Some e) rest) c' else setAt n (FailedSwap e rest) c')"
| "sendToIngester D n t (FailedSwap e rest) c =
     (let old = failed (tracker c);
          c' = c\<lparr>tracker := (tracker c)\<lparr>failed := True\<rparr>\<rparr>
      in if \<not> old then setAt n (ErrSend e rest) c' else setAt n (Loop (Some e) rest) c')"
| "sendToIngester D n t (ErrSend e rest) c =
     (if length (errCh (tracker c)) < 1
      then setAt n (Loop (Some e) rest)
             (c\<lparr>tracker := (tracker c)\<lparr>errCh := errCh (tracker c) @ [e]\<rparr>,
                errSent := errSent c + 1\<rparr>)
      else c)"

text \<open>What can happen next in a request in flight: goroutine \<open>n\<close> takes a step, or the
  \<^verbatim>\<open>select\<close> at the end of \<^verbatim>\<open>Push\<close> takes one of its three cases (the last with the
  value of \<^verbatim>\<open>ctx.Err()\<close>). A case of the \<^verbatim>\<open>select\<close> that is not ready, or any case
  once \<^verbatim>\<open>Push\<close> has returned, changes nothing.\<close>

datatype action = Run nat | RecvErr | RecvDone | CtxDone error

fun step :: "deps \<Rightarrow> action \<Rightarrow> config \<Rightarrow> config" where
  "step D (Run n) c =
     (if n < length (tasks c) then sendToIngester D n (tasks c ! n) (at (tasks c ! n)) c else c)"
| "step D RecvErr c =
     (case (returned c, errCh (tracker c)) of
        (None, e # es) \<Rightarrow> c\<lparr>returned := Some (Failure e), tracker := (tracker c)\<lparr>errCh := es\<rparr>\<rparr>
      | _ \<Rightarrow> c)"
| "step D RecvDone c =
     (case (returned c, doneCh (tracker c)) of
        (None, u # us) \<Rightarrow>
          c\<lparr>returned := Some (Response (retValidationErr c)),
            tracker := (tracker c)\<lparr>doneCh := us\<rparr>\<rparr>
      | _ \<Rightarrow> c)"
| "step D (CtxDone e) c =
     (case returned c of None \<Rightarrow> c\<lparr>returned := Some (Failure e)\<rparr> | _ \<Rightarrow> c)"

text \<open>An interleaving is a list of actions.\<close>

fun run :: "deps \<Rightarrow> action list \<Rightarrow> config \<Rightarrow> config" where
  "run D [] c = c"
| "run D (a # as) c = run D as (step D a c)"

subsection \<open>Push\<close>

text \<open>A return of \<^verbatim>\<open>Push\<close> before any goroutine is started.\<close>

definition early :: "pushReturn \<Rightarrow> error option \<Rightarrow> global_state \<Rightarrow> config" where
  "early r verr g =
     \<lparr>cstore = (\<lambda>a. \<lparr>Labels = [], Entries = []\<rparr>), trackers = [],
      tracker = \<lparr>doneCh = [], errCh = [], pending = 0, failed = False\<rparr>,
      tasks = [], returned = Some r, retValidationErr = verr, cglobals = g,
      doneSent = 0, errSent = 0\<rparr>"

text \<open>\<^verbatim>\<open>Push\<close> up to its \<^verbatim>\<open>select\<close>: the argument \<open>tenantID\<close> is the result of
  \<^verbatim>\<open>tenant.TenantID(ctx)\<close>, \<open>reqStreams\<close> is \<^verbatim>\<open>req.Streams\<close>. The result is the request
  in flight, with one goroutine per key of \<^verbatim>\<open>streamsByIngester\<close>, or a request that has
  returned already; \<open>None\<close> is a panic.\<close>

definition Push :: "deps \<Rightarrow> error + string \<Rightarrow> Stream list \<Rightarrow> global_state \<Rightarrow> config option" where
  "Push D tenantID reqStreams g =
     (case tenantID of
        Inl e \<Rightarrow> Some (early (Failure e) None g)
      | Inr uid \<Rightarrow>
          if length reqStreams = 0 then Some (early (Response None) None g)
          else (case pushStreams D (getValidationContextForTime D uid) uid reqStreams
                       \<lparr>store = (\<lambda>a. \<lparr>Labels = [], Entries = []\<rparr>), streams = [], keys = [],
                        validatedSamplesSize = 0, validatedSamplesCount = 0,
                        validationErr = None, globals = g\<rparr> of
                  None \<Rightarrow> None
                | Some st \<Rightarrow>
                    if length (streams st) = 0
                    then Some (early (Response (validationErr st)) (validationErr st) (globals st))
                    else if \<not> AllowN D uid (validatedSamplesSize st)
                    then Some (early
                      (Failure (HTTPError 429 RateLimitedErrorMsg
                         [S uid, I (Limit D uid), I (validatedSamplesCount st),
                          I (validatedSamplesSize st)]))
                      (validationErr st)
                      ((globals st)\<lparr>validation := (validation (globals st))
                         \<lparr>DiscardedSamples :=
                            Add (DiscardedSamples (validation (globals st))) (RateLimited, uid)
                              (validatedSamplesCount st),
                          DiscardedBytes :=
                            Add (DiscardedBytes (validation (globals st))) (RateLimited, uid)
                              (validatedSamplesSize st)\<rparr>\<rparr>))
                    else (case ringLoop D 0 (keys st)
                                 \<lparr>rstreams = streams st, streamsByIngester = [],
                                  descByIngester = []\<rparr> of
                            Inl e \<Rightarrow> Some (early (Failure e) (validationErr st) (globals st))
                          | Inr r \<Rightarrow>
                              Some \<lparr>cstore = store st, trackers = rstreams r,
                                    tracker = \<lparr>doneCh = [], errCh = [],
                                               pending = word_of_nat (length (streams st)),
                                               failed = False\<rparr>,
                                    tasks = map (\<lambda>(a, ss).
                                                   \<lparr>ingester = mapGet (descByIngester r) a
                                                                  \<lparr>Addr = ''''\<rparr>,
                                                    tstreams = ss, at = Spawned\<rparr>)
                                              (streamsByIngester r),
                                    returned = None, retValidationErr = validationErr st,
                                    cglobals = globals st, doneSent = 0, errSent = 0\<rparr>)))"

section \<open>The specification's vocabulary\<close>

text \<open>The definitions of this section follow the words of the specification, not the
  code: they say what the surviving streams of a request are and which validation errors
  the request meets, in input order. The theorems below compare them with the variables
  of \<^verbatim>\<open>Push\<close>.\<close>

text \<open>``Any line longer than \<^verbatim>\<open>max_line_size\<close> is truncated to that size'' when truncation
  is enabled.\<close>

definition truncated :: "validationContext \<Rightarrow> Stream \<Rightarrow> Stream" where
  "truncated vc s =
     (if maxLineSizeTruncate vc \<and> maxLineSize vc \<noteq> 0
      then s\<lparr>Entries := map (\<lambda>e. if int (length (Line e)) > maxLineSize vc
                                  then e\<lparr>Line := take (nat (maxLineSize vc)) (Line e)\<rparr> else e)
                             (Entries s)\<rparr>
      else s)"

text \<open>The surviving streams of a request, in input order: a stream without entries is
  dropped, the others are truncated and their labels canonicalised through the label
  cache (a failure drops the stream), and the entries that pass \<^verbatim>\<open>validate_entry\<close> are
  kept.\<close>

fun surviving :: "deps \<Rightarrow> validationContext \<Rightarrow> Stream list \<Rightarrow> Cache \<Rightarrow> Stream list" where
  "surviving D vc [] cache = []"
| "surviving D vc (s # ss) cache =
     (if Entries s = [] then surviving D vc ss cache
      else (case parseStreamLabels D vc (Labels (truncated vc s)) (truncated vc s) cache of
              (Inl e, cache') \<Rightarrow> surviving D vc ss cache'
            | (Inr lbls, cache') \<Rightarrow>
                (truncated vc s)
                  \<lparr>Labels := lbls,
                   Entries := filter (\<lambda>e. ValidateEntry D vc lbls e = None)
                                (Entries (truncated vc s))\<rparr>
                # surviving D vc ss cache'))"

definition survivingBytes :: "Stream list \<Rightarrow> int" where
  "survivingBytes sv = sum_list (map (\<lambda>s. bytes (Entries s)) sv)"

definition survivingCount :: "Stream list \<Rightarrow> int" where
  "survivingCount sv = sum_list (map (\<lambda>s. int (length (Entries s))) sv)"

text \<open>The validation errors that a request meets, in input order: the label error of a
  stream whose labels are invalid, and the error of every invalid entry of a stream with
  valid labels.\<close>

fun encounteredErrors :: "deps \<Rightarrow> validationContext \<Rightarrow> Stream list \<Rightarrow> Cache \<Rightarrow> error list" where
  "encounteredErrors D vc [] cache = []"
| "encounteredErrors D vc (s # ss) cache =
     (if Entries s = [] then encounteredErrors D vc ss cache
      else (case parseStreamLabels D vc (Labels (truncated vc s)) (truncated vc s) cache of
              (Inl e, cache') \<Rightarrow> e # encounteredErrors D vc ss cache'
            | (Inr lbls, cache') \<Rightarrow>
                List.map_filter (ValidateEntry D vc lbls) (Entries (truncated vc s))
                @ encounteredErrors D vc ss cache'))"

definition lastError :: "error list \<Rightarrow> error option \<Rightarrow> error option" where
  "lastError es dflt = (if es = [] then dflt else Some (last es))"

text \<open>The variables of \<^verbatim>\<open>Push\<close> before its first loop.\<close>

definition initPrep :: "global_state \<Rightarrow> prep" where
  "initPrep g = \<lparr>store = (\<lambda>a. \<lparr>Labels = [], Entries = []\<rparr>), streams = [], keys = [],
                  validatedSamplesSize = 0, validatedSamplesCount = 0,
                  validationErr = None, globals = g\<rparr>"

text \<open>A request that has returned a response returned it with the local
  \<^verbatim>\<open>validationErr\<close>.\<close>

definition responseIsValidationErr :: "config \<Rightarrow> bool" where
  "responseIsValidationErr c =
     (case returned c of Some (Response v) \<Rightarrow> v = retValidationErr c | _ \<Rightarrow> True)"

text \<open>For the label cache: the calls of \<^verbatim>\<open>parseStreamLabels\<close> that a cache has served, each
  with its validation context, raw label string and stream, in order; whether \<open>v\<close> is what
  a fresh parse and canonicalisation of the raw label string \<open>k\<close> produces; and whether
  one of the calls had the raw label string \<open>k\<close> and passed label validation.\<close>

fun parseAll :: "deps \<Rightarrow> (validationContext \<times> string \<times> Stream) list \<Rightarrow> Cache \<Rightarrow> Cache" where
  "parseAll D [] c = c"
| "parseAll D ((vc, key, s) # calls) c = parseAll D calls (snd (parseStreamLabels D vc key s c))"

definition canonicalOf :: "deps \<Rightarrow> string \<Rightarrow> string \<Rightarrow> bool" where
  "canonicalOf D k v = (case ParseLabels D k of Inl e \<Rightarrow> False | Inr ls \<Rightarrow> LabelsString D ls = v)"

definition passedValidation ::
  "deps \<Rightarrow> (validationContext \<times> string \<times> Stream) list \<Rightarrow> string \<Rightarrow> bool" where
  "passedValidation D calls k =
     list_ex (\<lambda>(vc, key, s). key = k \<and>
                (case ParseLabels D key of
                   Inl e \<Rightarrow> False
                 | Inr ls \<Rightarrow> ValidateLabels D vc ls s = None)) calls"

text \<open>Whether one of the calls, served in order by a cache that was \<open>c\<close> before the first
  of them, inserted the raw label string \<open>k\<close>: the call was for \<open>k\<close>, it missed the cache
  as the cache was at that call, and \<open>k\<close> parsed and passed label validation under the
  validation context and the stream of that very call. These are the calls that reach
  \<^verbatim>\<open>labelCache.Add\<close>.\<close>

fun insertedValidated ::
  "deps \<Rightarrow> (validationContext \<times> string \<times> Stream) list \<Rightarrow> Cache \<Rightarrow> string \<Rightarrow> bool" where
  "insertedValidated D [] c k = False"
| "insertedValidated D ((vc, key, s) # calls) c k =
     ((key = k \<and> fst (lru_Get key c) = None \<and>
       (case ParseLabels D key of
          Inl e \<Rightarrow> False
        | Inr ls \<Rightarrow> ValidateLabels D vc ls s = None))
      \<or> insertedValidated D calls (snd (parseStreamLabels D vc key s c)) k)"

text \<open>Every entry of the cache is the canonical form of its key, and its key passed label
  validation in one of the calls.\<close>

definition cacheInv :: "deps \<Rightarrow> (validationContext \<times> string \<times> Stream) list \<Rightarrow> Cache \<Rightarrow> bool" where
  "cacheInv D calls c =
     list_all (\<lambda>(k, v). canonicalOf D k v \<and> passedValidation D calls k) (items c)"

text \<open>What is observed of a request in flight: what \<^verbatim>\<open>Push\<close> has returned, the success and
  failure bucket of every stream (read as signed numbers), the pending counter, the
  addresses of the ingesters that have received an RPC, and the number of values that the
  channels \<^verbatim>\<open>done\<close> and \<^verbatim>\<open>err\<close> have received.\<close>

definition observe ::
  "config \<Rightarrow> pushReturn option \<times> (int \<times> int) list \<times> int \<times> string list \<times> nat \<times> nat" where
  "observe c =
     (returned c,
      map (\<lambda>t. (sint (successBucket t), sint (failureBucket t))) (trackers c),
      sint (pending (tracker c)),
      map fst (rpcLog (cglobals c)),
      doneSent c, errSent c)"

subsection \<open>The signals of a request in flight\<close>

text \<open>The goroutines that stand before the send on \<^verbatim>\<open>err\<close>, and those that stand before
  the send on \<^verbatim>\<open>done\<close>.\<close>

fun isErrSend :: "pc \<Rightarrow> bool" where
  "isErrSend (ErrSend e rest) = True"
| "isErrSend p = False"

fun isDoneSend :: "pc \<Rightarrow> bool" where
  "isDoneSend (DoneSend rest) = True"
| "isDoneSend p = False"

definition standing :: "(pc \<Rightarrow> bool) \<Rightarrow> config \<Rightarrow> nat" where
  "standing P c = length (filter (\<lambda>t. P (at t)) (tasks c))"

text \<open>The number of stream visits that the goroutines of a request have still to make
  (a goroutine that stands before \<^verbatim>\<open>pending.Dec()\<close> counts that visit).\<close>

fun visits :: "pc \<Rightarrow> nat list \<Rightarrow> nat" where
  "visits Spawned ts = length ts"
| "visits (Loop r rest) ts = length rest"
| "visits (PendingDec rest) ts = Suc (length rest)"
| "visits (DoneSend rest) ts = length rest"
| "visits (FailedSwap e rest) ts = length rest"
| "visits (ErrSend e rest) ts = length rest"

definition remaining :: "config \<Rightarrow> nat" where
  "remaining c = sum_list (map (\<lambda>t. visits (at t) (tstreams t)) (tasks c))"

text \<open>The error channel: the values sent on it and the goroutines about to send number at
  most one, and none while the failed flag is unset. The done channel: the values sent on
  it and the goroutines about to send number at most one; once there is one,
  \<^verbatim>\<open>pending\<close> has passed zero and the remaining visits cannot bring the 32-bit counter
  around to zero again.\<close>

definition errInv :: "config \<Rightarrow> bool" where
  "errInv c = (errSent c + standing isErrSend c \<le> (if failed (tracker c) then 1 else 0))"

definition doneInv :: "config \<Rightarrow> bool" where
  "doneInv c =
     (doneSent c + standing isDoneSend c \<le> 1
      \<and> remaining c < 2 ^ 32
      \<and> (doneSent c + standing isDoneSend c = 1 \<longrightarrow>
           unat (- pending (tracker c)) + remaining c < 2 ^ 32))"

section \<open>Concrete inputs\<close>

definition zeroMetrics :: metrics where
  "zeroMetrics = \<lparr>DiscardedSamples = (\<lambda>k. 0), DiscardedBytes = (\<lambda>k. 0),
                  MutatedSamples = (\<lambda>k. 0), MutatedBytes = (\<lambda>k. 0)\<rparr>"

text \<open>A tenant \<open>t\<close> whose lines are truncated to two bytes, and a stream with a line of
  five bytes followed by a line of four.\<close>

definition vcTrunc2 :: validationContext where
  "vcTrunc2 = \<lparr>maxLabelNameLength = 1024, maxLabelValueLength = 2048,
               maxLabelNamesPerSeries = 30, maxLineSize = 2, maxLineSizeTruncate = True,
               creationGracePeriod = 1000, rejectOldSampleMaxAge = 0, userID = ''t''\<rparr>"

definition twoLongLines :: Stream where
  "twoLongLines =
     \<lparr>Labels = ''{a=\"1\"}'',
      Entries = [\<lparr>Timestamp = 1, Line = ''abcde''\<rparr>, \<lparr>Timestamp = 2, Line = ''abcd''\<rparr>]\<rparr>"

text \<open>A distributor that has just been made by \<^verbatim>\<open>New\<close>.\<close>

definition g0 :: global_state where
  "g0 = \<lparr>labelCache = lru_New maxLabelCacheSize, validation = zeroMetrics,
         ingesterAppends = (\<lambda>a. 0), ingesterAppendFailures = (\<lambda>a. 0), rpcLog = []\<rparr>"

text \<open>Limits without a bound on the line and without truncation.\<close>

definition vc0 :: "string \<Rightarrow> validationContext" where
  "vc0 uid = \<lparr>maxLabelNameLength = 1024, maxLabelValueLength = 2048,
               maxLabelNamesPerSeries = 30, maxLineSize = 0, maxLineSizeTruncate = False,
               creationGracePeriod = 1000, rejectOldSampleMaxAge = 0, userID = uid\<rparr>"

text \<open>Modelled from the spec: \<^verbatim>\<open>ValidateLabels\<close> and \<^verbatim>\<open>ValidateEntry\<close> of the validator,
  which is outside the sources. ``\<^verbatim>\<open>validate_labels\<close> fails if duplicate names exist, any
  name or value exceeds length limits, the number of labels exceeds the cap, or the
  label-set is empty''; ``\<^verbatim>\<open>validate_entry\<close> fails if the line length exceeds
  \<^verbatim>\<open>max_line_size\<close> and truncation is disabled, the timestamp is older than
  \<^verbatim>\<open>reject_old_samples_max_age\<close>, or newer than \<^verbatim>\<open>creation_grace_period\<close> in the
  future''. They are used in the concrete inputs only; the theorems hold for every
  validator.\<close>

definition validateLabelsSpec :: "validationContext \<Rightarrow> labels \<Rightarrow> Stream \<Rightarrow> error option" where
  "validateLabelsSpec vc ls s =
     (if ls = [] then Some (Err ''missing labels'')
      else if int (length ls) > maxLabelNamesPerSeries vc
      then Some (Err ''max label names per series'')
      else if list_ex (\<lambda>(n, v). int (length n) > maxLabelNameLength vc) ls
      then Some (Err ''label name too long'')
      else if list_ex (\<lambda>(n, v). int (length v) > maxLabelValueLength vc) ls
      then Some (Err ''label value too long'')
      else if \<not> distinct (map fst ls) then Some (Err ''duplicate label name'')
      else None)"

definition validateEntrySpec :: "validationContext \<Rightarrow> string \<Rightarrow> Entry \<Rightarrow> error option" where
  "validateEntrySpec vc lbls e =
     (if Timestamp e < rejectOldSampleMaxAge vc then Some (Err ''greater than max sample age'')
      else if Timestamp e > creationGracePeriod vc then Some (Err ''too far in future'')
      else if maxLineSize vc \<noteq> 0 \<and> int (length (Line e)) > maxLineSize vc
              \<and> \<not> maxLineSizeTruncate vc
      then Some (Err ''line too long'')
      else None)"

text \<open>The label parser on the label strings of the concrete inputs (every other string
  is a syntax error here), and \<^verbatim>\<open>Labels.String\<close>.\<close>

definition parseLabelsEx :: "string \<Rightarrow> error + labels" where
  "parseLabelsEx k =
     (if k = ''{a=\"1\"}'' then Inr [(''a'', ''1'')]
      else if k = ''{b=\"2\"}'' then Inr [(''b'', ''2'')]
      else if k = ''{a=\"1\", b=\"2\"}'' then Inr [(''a'', ''1''), (''b'', ''2'')]
      else Inl (Err ''syntax error''))"

fun labelPairs :: "labels \<Rightarrow> string" where
  "labelPairs [] = []"
| "labelPairs [(n, v)] = n @ ''=\"'' @ v @ ''\"''"
| "labelPairs ((n, v) # ls) = n @ ''=\"'' @ v @ ''\", '' @ labelPairs ls"

definition labelsStringEx :: "labels \<Rightarrow> string" where
  "labelsStringEx ls = ''{'' @ labelPairs ls @ ''}''"

text \<open>Collaborators for the concrete inputs: a limiter that admits up to 100 bytes, a
  ring with one ingester and no tolerated error, and ingesters that accept every push.
  The routing key of the stream \<open>{a="1"}\<close> is 1, that of every other stream is 2.\<close>

definition D0 :: deps where
  "D0 = \<lparr>ParseLabels = parseLabelsEx, LabelsString = labelsStringEx,
         ValidateLabels = validateLabelsSpec, ValidateEntry = validateEntrySpec,
         getValidationContextForTime = vc0,
         TokenFor = (\<lambda>uid lbls. if lbls = ''{a=\"1\"}'' then 1 else 2),
         AllowN = (\<lambda>uid n. n \<le> 100), Limit = (\<lambda>uid. 100),
         ringGet = (\<lambda>k. Inr \<lparr>Instances = [\<lparr>Addr = ''ingester-1''\<rparr>], MaxErrors = 0\<rparr>),
         GetClientFor = (\<lambda>a. None), ingesterPush = (\<lambda>a p. None)\<rparr>"

text \<open>One stream with one line of 500 bytes.\<close>

definition req500 :: "Stream list" where
  "req500 = [\<lparr>Labels = ''{a=\"1\"}'',
              Entries = [\<lparr>Timestamp = 5, Line = replicate 500 (CHR ''x'')\<rparr>]\<rparr>]"

text \<open>Two streams with valid labels and one short line each; a ring whose lookup
  succeeds for the routing key 1 and fails for every other key.\<close>

definition reqAB :: "Stream list" where
  "reqAB = [\<lparr>Labels = ''{a=\"1\"}'', Entries = [\<lparr>Timestamp = 1, Line = ''x''\<rparr>]\<rparr>,
            \<lparr>Labels = ''{b=\"2\"}'', Entries = [\<lparr>Timestamp = 2, Line = ''y''\<rparr>]\<rparr>]"

definition DringFails :: deps where
  "DringFails =
     D0\<lparr>ringGet := (\<lambda>k. if k = 1
                         then Inr \<lparr>Instances = [\<lparr>Addr = ''ingester-1''\<rparr>], MaxErrors = 0\<rparr>
                         else Inl (Err ''empty ring''))\<rparr>"

text \<open>Two streams whose labels do not parse; and a stream with valid labels whose second
  entry is too far in the future.\<close>

definition reqBad2 :: "Stream list" where
  "reqBad2 = [\<lparr>Labels = ''not_a_labelset'', Entries = [\<lparr>Timestamp = 1, Line = ''x''\<rparr>]\<rparr>,
              \<lparr>Labels = ''also_not'', Entries = [\<lparr>Timestamp = 2, Line = ''y''\<rparr>]\<rparr>]"

definition reqMixed :: "Stream list" where
  "reqMixed = [\<lparr>Labels = ''{a=\"1\"}'',
                Entries = [\<lparr>Timestamp = 5, Line = ''ok''\<rparr>,
                           \<lparr>Timestamp = 5000, Line = ''late''\<rparr>]\<rparr>]"

text \<open>A validator that rejects every line longer than a non-zero \<^verbatim>\<open>max_line_size\<close>,
  whether or not truncation is enabled, and is \<open>validateEntrySpec\<close> otherwise; and
  collaborators that truncate the lines of every tenant to two bytes.\<close>

definition validateEntryStrict :: "validationContext \<Rightarrow> string \<Rightarrow> Entry \<Rightarrow> error option" where
  "validateEntryStrict vc lbls e =
     (if Timestamp e < rejectOldSampleMaxAge vc then Some (Err ''greater than max sample age'')
      else if Timestamp e > creationGracePeriod vc then Some (Err ''too far in future'')
      else if maxLineSize vc \<noteq> 0 \<and> int (length (Line e)) > maxLineSize vc
      then Some (Err ''line too long'')
      else None)"

definition Dtrunc :: deps where
  "Dtrunc = D0\<lparr>getValidationContextForTime := (\<lambda>uid. vcTrunc2\<lparr>userID := uid\<rparr>)\<rparr>"

text \<open>A stream with two labels, the limits of a tenant \<open>a\<close> that allow thirty labels per
  series and the limits of a tenant \<open>b\<close> that allow one.\<close>

definition streamTwoLabels :: Stream where
  "streamTwoLabels = \<lparr>Labels = ''{a=\"1\", b=\"2\"}'', Entries = [\<lparr>Timestamp = 1, Line = ''x''\<rparr>]\<rparr>"

definition vcOneLabel :: validationContext where
  "vcOneLabel = (vc0 ''b'')\<lparr>maxLabelNamesPerSeries := 1\<rparr>"

text \<open>A ring with replication factor 3 that tolerates one error: the routing key 1 is
  replicated to the ingesters 1, 2 and 3, every other key to the ingesters 4, 5 and 6.\<close>

definition DtwoSets :: deps where
  "DtwoSets =
     D0\<lparr>ringGet := (\<lambda>k. if k = 1
                         then Inr \<lparr>Instances = [\<lparr>Addr = ''ingester-1''\<rparr>, \<lparr>Addr = ''ingester-2''\<rparr>,
                                                 \<lparr>Addr = ''ingester-3''\<rparr>], MaxErrors = 1\<rparr>
                         else Inr \<lparr>Instances = [\<lparr>Addr = ''ingester-4''\<rparr>, \<lparr>Addr = ''ingester-5''\<rparr>,
                                                 \<lparr>Addr = ''ingester-6''\<rparr>], MaxErrors = 1\<rparr>)\<rparr>"

text \<open>The same replication for every key to the ingesters 1, 2 and 3, of which the first
  fails every push.\<close>

definition DoneFails :: deps where
  "DoneFails =
     D0\<lparr>ringGet := (\<lambda>k. Inr \<lparr>Instances = [\<lparr>Addr = ''ingester-1''\<rparr>, \<lparr>Addr = ''ingester-2''\<rparr>,
                                            \<lparr>Addr = ''ingester-3''\<rparr>], MaxErrors = 1\<rparr>),
        ingesterPush := (\<lambda>a p. if a = ''ingester-1'' then Some (Err ''rpc failed'') else None)\<rparr>"

text \<open>All three goroutines of a request with one stream run to their end: the first in
  four steps (the RPC, \<^verbatim>\<open>failureBucket.Dec()\<close>, \<^verbatim>\<open>failed.Swap(true)\<close>, the send on
  \<^verbatim>\<open>err\<close>), the second in two (the RPC, \<^verbatim>\<open>successBucket.Dec()\<close>), the third in four (the
  RPC, \<^verbatim>\<open>successBucket.Dec()\<close>, \<^verbatim>\<open>pending.Dec()\<close>, the send on \<^verbatim>\<open>done\<close>).\<close>

definition schedAll :: "action list" where
  "schedAll = [Run 0, Run 0, Run 0, Run 0, Run 1, Run 1, Run 2, Run 2, Run 2, Run 2]"

text \<open>The three goroutines of the first stream run to their end (two, three and four
  steps), then the \<^verbatim>\<open>select\<close> of \<^verbatim>\<open>Push\<close> takes \<^verbatim>\<open>done\<close>; the goroutines of the second
  stream have not taken a step.\<close>

definition schedFirstStream :: "action list" where
  "schedFirstStream = [Run 0, Run 0, Run 1, Run 1, Run 1, Run 2, Run 2, Run 2, Run 2, RecvDone]"

section \<open>The first loop of Push and the specification's vocabulary\<close>

text \<open>What \<^verbatim>\<open>truncateLines\<close> leaves, when it does not panic, is the truncated stream of the
  specification.\<close>

lemma truncateEntries_eq:
  "truncateEntries m es acc = Some (es', r) \<Longrightarrow>
   es' = map (\<lambda>e. if m \<noteq> 0 \<and> int (length (Line e)) > m
                   then e\<lparr>Line := take (nat m) (Line e)\<rparr> else e) es"
  by (induction m es acc arbitrary: es' r rule: truncateEntries.induct)
     (auto split: if_splits option.splits)

lemma truncateLines_truncated:
  "truncateLines vc s m = Some (s1, m1) \<Longrightarrow> s1 = truncated vc s"
  unfolding truncateLines_def truncated_def
  by (auto split: if_splits option.splits dest!: truncateEntries_eq)

lemma bytes_foldl: "foldl (\<lambda>b e. b + int (length (Line e))) a es = a + bytes es"
  unfolding bytes_def
proof (induction es arbitrary: a)
  case Nil show ?case by simp
next
  case (Cons e es)
  have "foldl (\<lambda>b e. b + int (length (Line e))) (a + int (length (Line e))) es
        = a + int (length (Line e)) + foldl (\<lambda>b e. b + int (length (Line e))) 0 es"
    using Cons.IH[of "a + int (length (Line e))"] by simp
  moreover have "foldl (\<lambda>b e. b + int (length (Line e))) (0 + int (length (Line e))) es
        = int (length (Line e)) + foldl (\<lambda>b e. b + int (length (Line e))) 0 es"
    using Cons.IH[of "0 + int (length (Line e))"] by simp
  ultimately show ?case by simp
qed

lemma bytes_Nil [simp]: "bytes [] = 0"
  by (simp add: bytes_def)

lemma bytes_Cons [simp]: "bytes (e # es) = int (length (Line e)) + bytes es"
  using bytes_foldl[of "int (length (Line e))" es] by (simp add: bytes_def)

text \<open>The inner loop keeps the valid entries, adds their byte size and their number to the
  two counters, and leaves the error of the last invalid entry in \<^verbatim>\<open>validationErr\<close>.\<close>

lemma validateEntries_eq:
  "validateEntries D vc l es (sz, cnt, verr) =
     (filter (\<lambda>e. ValidateEntry D vc l e = None) es,
      sz + bytes (filter (\<lambda>e. ValidateEntry D vc l e = None) es),
      cnt + int (length (filter (\<lambda>e. ValidateEntry D vc l e = None) es)),
      lastError (List.map_filter (ValidateEntry D vc l) es) verr)"
proof (induction es arbitrary: sz cnt verr)
  case Nil
  show ?case by (simp add: lastError_def)
next
  case (Cons e es)
  show ?case
  proof (cases "ValidateEntry D vc l e")
    case None
    then show ?thesis using Cons.IH[of "sz + int (length (Line e))" "cnt + 1" verr]
      by (simp add: lastError_def)
  next
    case (Some er)
    then show ?thesis using Cons.IH[of sz cnt "Some er"]
      by (simp add: lastError_def)
  qed
qed

lemma lastError_append: "lastError (xs @ ys) d = lastError ys (lastError xs d)"
  by (simp add: lastError_def)

text \<open>One iteration of the first loop, by the three ways it can go.\<close>

lemma pushStream_empty:
  "Entries s = [] \<Longrightarrow> pushStream D vc uid s st = Some (st\<lparr>store := (store st)(streamVar := s)\<rparr>)"
  by (simp add: pushStream_def)

lemma pushStream_invalid:
  assumes "Entries s \<noteq> []" and "pushStream D vc uid s st = Some st'"
    and "parseStreamLabels D vc (Labels (truncated vc s)) (truncated vc s) (labelCache (globals st)) = (Inl e, c1)"
  shows "validatedSamplesSize st' = validatedSamplesSize st"
    and "validatedSamplesCount st' = validatedSamplesCount st"
    and "keys st' = keys st" and "streams st' = streams st"
    and "validationErr st' = Some e" and "labelCache (globals st') = c1"
  using assms unfolding pushStream_def
  by (auto simp: Let_def split: option.splits prod.splits sum.splits dest!: truncateLines_truncated)

lemma pushStream_valid:
  assumes "Entries s \<noteq> []" and "pushStream D vc uid s st = Some st'"
    and "parseStreamLabels D vc (Labels (truncated vc s)) (truncated vc s) (labelCache (globals st)) = (Inr lbls, c1)"
  shows "validatedSamplesSize st' = validatedSamplesSize st
           + bytes (filter (\<lambda>e. ValidateEntry D vc lbls e = None) (Entries (truncated vc s)))"
    and "validatedSamplesCount st' = validatedSamplesCount st
           + int (length (filter (\<lambda>e. ValidateEntry D vc lbls e = None) (Entries (truncated vc s))))"
    and "keys st' = keys st @ [TokenFor D uid lbls]"
    and "streams st' = streams st @ [\<lparr>stream = streamVar, successBucket = 0, failureBucket = 0\<rparr>]"
    and "validationErr st' =
           lastError (List.map_filter (ValidateEntry D vc lbls) (Entries (truncated vc s))) (validationErr st)"
    and "labelCache (globals st') = c1"
    and "store st' streamVar = (truncated vc s)\<lparr>Labels := lbls,
            Entries := filter (\<lambda>e. ValidateEntry D vc lbls e = None) (Entries (truncated vc s))\<rparr>"
  using assms unfolding pushStream_def
  by (auto simp: Let_def validateEntries_eq split: option.splits prod.splits sum.splits dest!: truncateLines_truncated)

text \<open>The first loop against the specification's vocabulary: the two counters are the byte
  size and the number of the surviving entries, the routing keys are those of the
  surviving streams in order, there is one stream tracker per surviving stream (each with
  the address of the range variable), and \<^verbatim>\<open>validationErr\<close> is the last error that the
  request met.\<close>

lemma pushStreams_refines:
  "pushStreams D vc uid ss st = Some st' \<Longrightarrow>
     validatedSamplesSize st' = validatedSamplesSize st
        + sum_list (map (\<lambda>s. bytes (Entries s)) (surviving D vc ss (labelCache (globals st))))
   \<and> validatedSamplesCount st' = validatedSamplesCount st
        + sum_list (map (\<lambda>s. int (length (Entries s))) (surviving D vc ss (labelCache (globals st))))
   \<and> keys st' = keys st @ map (\<lambda>s. TokenFor D uid (Labels s)) (surviving D vc ss (labelCache (globals st)))
   \<and> streams st' = streams st @
        replicate (length (surviving D vc ss (labelCache (globals st))))
          \<lparr>stream = streamVar, successBucket = 0, failureBucket = 0\<rparr>
   \<and> validationErr st' = lastError (encounteredErrors D vc ss (labelCache (globals st))) (validationErr st)"
proof (induction ss arbitrary: st)
  case Nil
  then show ?case by (simp add: lastError_def)
next
  case (Cons s ss)
  from Cons.prems obtain st1 where
    one: "pushStream D vc uid s st = Some st1" and rest: "pushStreams D vc uid ss st1 = Some st'"
    by (auto split: option.splits)
  note IH = Cons.IH[OF rest]
  show ?case
  proof (cases "Entries s = []")
    case True
    with one have "st1 = st\<lparr>store := (store st)(streamVar := s)\<rparr>"
      by (simp add: pushStream_empty)
    with IH True show ?thesis by simp
  next
    case False
    obtain r c1 where p: "parseStreamLabels D vc (Labels (truncated vc s)) (truncated vc s)
                            (labelCache (globals st)) = (r, c1)"
      by (cases "parseStreamLabels D vc (Labels (truncated vc s)) (truncated vc s) (labelCache (globals st))")
    show ?thesis
    proof (cases r)
      case (Inl e)
      with p have p': "parseStreamLabels D vc (Labels (truncated vc s)) (truncated vc s)
                            (labelCache (globals st)) = (Inl e, c1)" by simp
      note f = pushStream_invalid[OF False one p']
      show ?thesis using IH False p' f
        by (simp add: lastError_def)
    next
      case (Inr lbls)
      with p have p': "parseStreamLabels D vc (Labels (truncated vc s)) (truncated vc s)
                            (labelCache (globals st)) = (Inr lbls, c1)" by simp
      note f = pushStream_valid[OF False one p']
      show ?thesis using IH False p' f(1-6)
        by (simp add: lastError_append replicate_append_same)
    qed
  qed
qed

text \<open>The first loop touches neither the rate-limited counters nor the ingesters.\<close>

lemma truncateLines_frame:
  "truncateLines vc s m = Some (s1, m1) \<Longrightarrow>
   DiscardedSamples m1 = DiscardedSamples m \<and> DiscardedBytes m1 = DiscardedBytes m"
  unfolding truncateLines_def by (auto split: if_splits option.splits)

lemma pushStream_frame:
  assumes "pushStream D vc uid s st = Some st'"
  shows "DiscardedSamples (validation (globals st')) (RateLimited, u)
           = DiscardedSamples (validation (globals st)) (RateLimited, u)"
    and "DiscardedBytes (validation (globals st')) (RateLimited, u)
           = DiscardedBytes (validation (globals st)) (RateLimited, u)"
    and "rpcLog (globals st') = rpcLog (globals st)"
    and "ingesterAppends (globals st') = ingesterAppends (globals st)"
    and "ingesterAppendFailures (globals st') = ingesterAppendFailures (globals st)"
  using assms unfolding pushStream_def
  by (auto simp: Let_def Add_def split: if_splits option.splits prod.splits sum.splits
           dest!: truncateLines_frame)

lemma pushStreams_frame:
  "pushStreams D vc uid ss st = Some st' \<Longrightarrow>
     DiscardedSamples (validation (globals st')) (RateLimited, u)
       = DiscardedSamples (validation (globals st)) (RateLimited, u)
   \<and> DiscardedBytes (validation (globals st')) (RateLimited, u)
       = DiscardedBytes (validation (globals st)) (RateLimited, u)
   \<and> rpcLog (globals st') = rpcLog (globals st)
   \<and> ingesterAppends (globals st') = ingesterAppends (globals st)
   \<and> ingesterAppendFailures (globals st') = ingesterAppendFailures (globals st)"
proof (induction ss arbitrary: st)
  case Nil
  then show ?case by simp
next
  case (Cons s ss)
  from Cons.prems obtain st1 where
    one: "pushStream D vc uid s st = Some st1" and rest: "pushStreams D vc uid ss st1 = Some st'"
    by (auto split: option.splits)
  show ?case using Cons.IH[OF rest] pushStream_frame(1,2)[OF one, of u] pushStream_frame(3-5)[OF one] by simp
qed

text \<open>A request without goroutines issues no RPC, whatever happens next.\<close>

lemma step_no_tasks:
  "tasks c = [] \<Longrightarrow> tasks (step D a c) = [] \<and> cglobals (step D a c) = cglobals c"
  by (cases a) (auto split: option.splits list.splits)

lemma run_no_tasks:
  "tasks c = [] \<Longrightarrow> tasks (run D sched c) = [] \<and> cglobals (run D sched c) = cglobals c"
proof (induction sched arbitrary: c)
  case Nil
  then show ?case by simp
next
  case (Cons a sched)
  from step_no_tasks[OF Cons.prems, of D a]
  have "tasks (step D a c) = []" and "cglobals (step D a c) = cglobals c" by simp_all
  with Cons.IH[of "step D a c"] show ?case by simp
qed

lemma Push_prepared:
  assumes "Push D (Inr uid) reqStreams g = Some c" and "reqStreams \<noteq> []"
  obtains st where "pushStreams D (getValidationContextForTime D uid) uid reqStreams (initPrep g) = Some st"
  using assms unfolding Push_def initPrep_def
  by (auto split: option.splits)

lemma ringLoop_first_failure:
  "\<forall>k'\<in>set ks1. \<exists>rs. ringGet D k' = Inr rs \<Longrightarrow> ringGet D k = Inl e \<Longrightarrow>
   ringLoop D i (ks1 @ k # ks2) r = Inl e"
  by (induction ks1 arbitrary: i r) auto

text \<open>Only the \<^verbatim>\<open>select\<close> of \<^verbatim>\<open>Push\<close> makes it return, once; a response carries the local
  \<^verbatim>\<open>validationErr\<close>, which the goroutines do not touch.\<close>

lemma sendToIngester_frame:
  "returned (sendToIngester D n t p c) = returned c
   \<and> retValidationErr (sendToIngester D n t p c) = retValidationErr c"
  by (cases "(D, n, t, p, c)" rule: sendToIngester.cases)
     (auto simp: setAt_def Let_def split: prod.splits)

lemma step_response:
  "responseIsValidationErr c \<Longrightarrow>
   responseIsValidationErr (step D a c) \<and> retValidationErr (step D a c) = retValidationErr c"
  by (cases a)
     (auto simp: responseIsValidationErr_def sendToIngester_frame
           split: option.splits list.splits pushReturn.splits)

lemma run_response:
  "responseIsValidationErr c \<Longrightarrow>
   responseIsValidationErr (run D sched c) \<and> retValidationErr (run D sched c) = retValidationErr c"
proof (induction sched arbitrary: c)
  case Nil
  then show ?case by simp
next
  case (Cons a sched)
  from step_response[OF Cons.prems, of D a] Cons.IH[of "step D a c"]
  show ?case by simp
qed

lemma Push_validationErr:
  assumes "Push D (Inr uid) reqStreams g = Some c"
  shows "responseIsValidationErr c
       \<and> (returned c = None \<or> (\<exists>v. returned c = Some (Response v)) \<longrightarrow>
            retValidationErr c = lastError (encounteredErrors D (getValidationContextForTime D uid) reqStreams (labelCache g)) None)"
proof (cases "reqStreams = []")
  case True
  with assms show ?thesis
    by (auto simp: Push_def early_def responseIsValidationErr_def lastError_def)
next
  case False
  from Push_prepared[OF assms False] obtain st where
    st: "pushStreams D (getValidationContextForTime D uid) uid reqStreams (initPrep g) = Some st" .
  have v: "validationErr st = lastError (encounteredErrors D (getValidationContextForTime D uid) reqStreams (labelCache g)) None"
    using pushStreams_refines[OF st] by (simp add: initPrep_def)
  show ?thesis using assms False st v unfolding Push_def initPrep_def
    by (auto simp: early_def responseIsValidationErr_def split: if_splits sum.splits)
qed

lemma step_returned_stable:
  "returned c = Some r \<Longrightarrow> returned (step D a c) = Some r"
  by (cases a) (auto simp: sendToIngester_frame)

lemma run_returned_stable:
  "returned c = Some r \<Longrightarrow> returned (run D sched c) = Some r"
  by (induction sched arbitrary: c) (auto simp: step_returned_stable)

text \<open>The definitions that evaluate the model on a concrete input.\<close>

lemmas ex_defs = D0_def g0_def vc0_def zeroMetrics_def validateLabelsSpec_def
  validateEntrySpec_def parseLabelsEx_def labelsStringEx_def lru_New_def maxLabelCacheSize_def

lemmas eval_defs = Push_def pushStream_def truncateLines_def parseStreamLabels_def
  lru_Get_def lru_Add_def early_def Add_def Let_def truncated_def
  survivingBytes_def survivingCount_def mapGet_def

lemmas run_defs = setAt_def executePushRequest_def Add_def Let_def

section \<open>truncateLines\<close>

lemma truncateEntries_lines:
  "truncateEntries m es acc = Some (es', r) \<Longrightarrow>
   map Line es' =
     map (\<lambda>e. if m \<noteq> 0 \<and> int (length (Line e)) > m then take (nat m) (Line e) else Line e) es
   \<and> map Timestamp es' = map Timestamp es"
  by (induction m es acc arbitrary: es' r rule: truncateEntries.induct)
     (auto split: if_splits option.splits)

lemma truncateEntries_short:
  "truncateEntries m es acc = Some (es', r) \<Longrightarrow> m \<noteq> 0 \<Longrightarrow>
   list_all (\<lambda>e. int (length (Line e)) \<le> m) es'"
  by (induction m es acc arbitrary: es' r rule: truncateEntries.induct)
     (auto split: if_splits option.splits)

text \<open>Claim C4, at a stream with two lines longer than the limit of two bytes (five and
  four bytes): both lines are cut to two bytes and the counter of mutated samples is
  advanced by 2, but the counter of mutated bytes is advanced by 2, the excess of the last
  truncated line alone, where the sum of the excesses is 3 + 2 = 5.\<close>

theorem C4_truncated_bytes_of_last_line_only:
  "map_option (\<lambda>(s', m'). (map Line (Entries s'), MutatedSamples m' (LineTooLong, ''t''),
                           MutatedBytes m' (LineTooLong, ''t'')))
     (truncateLines vcTrunc2 twoLongLines zeroMetrics) = Some ([''ab'', ''ab''], 2, 2)"
  by (simp add: truncateLines_def vcTrunc2_def twoLongLines_def zeroMetrics_def Add_def)

section \<open>Rate limiting\<close>

text \<open>Claim C5. When some stream survives the preparation and the rate limiter rejects
  the total byte size of the surviving entries, \<^verbatim>\<open>Push\<close> returns the error
  \<^verbatim>\<open>httpgrpc.Errorf(429, RateLimitedErrorMsg, userID, limit, count, size)\<close>, whose arguments
  are the tenant, the limit, the number of surviving entries and their byte size; the
  rate-limited counters of discarded samples and bytes of the tenant are advanced by
  these two numbers; no goroutine is started, and under every interleaving no ingester
  receives an RPC.\<close>

theorem C5_rate_limited:
  assumes push: "Push D (Inr uid) reqStreams g = Some c"
    and sv: "sv = surviving D (getValidationContextForTime D uid) reqStreams (labelCache g)"
    and ne: "sv \<noteq> []"
    and deny: "\<not> AllowN D uid (survivingBytes sv)"
  shows "returned c = Some (Failure (HTTPError 429 RateLimitedErrorMsg
                        [S uid, I (Limit D uid), I (survivingCount sv), I (survivingBytes sv)]))
       \<and> DiscardedSamples (validation (cglobals c)) (RateLimited, uid)
           = DiscardedSamples (validation g) (RateLimited, uid) + survivingCount sv
       \<and> DiscardedBytes (validation (cglobals c)) (RateLimited, uid)
           = DiscardedBytes (validation g) (RateLimited, uid) + survivingBytes sv
       \<and> tasks c = []
       \<and> (\<forall>sched. rpcLog (cglobals (run D sched c)) = rpcLog g)"
proof -
  have rne: "reqStreams \<noteq> []" using sv ne by auto
  from Push_prepared[OF push rne] obtain st where
    st: "pushStreams D (getValidationContextForTime D uid) uid reqStreams (initPrep g) = Some st" .
  note R = pushStreams_refines[OF st]
  note F = pushStreams_frame[OF st, of uid]
  have sz: "validatedSamplesSize st = survivingBytes sv"
    and cnt: "validatedSamplesCount st = survivingCount sv"
    and len: "length (streams st) = length sv"
    using R sv by (simp_all add: initPrep_def survivingBytes_def survivingCount_def)
  have c: "c = early (Failure (HTTPError 429 RateLimitedErrorMsg
                 [S uid, I (Limit D uid), I (survivingCount sv), I (survivingBytes sv)]))
               (validationErr st)
               ((globals st)\<lparr>validation := (validation (globals st))
                  \<lparr>DiscardedSamples :=
                     Add (DiscardedSamples (validation (globals st))) (RateLimited, uid)
                       (survivingCount sv),
                   DiscardedBytes :=
                     Add (DiscardedBytes (validation (globals st))) (RateLimited, uid)
                       (survivingBytes sv)\<rparr>\<rparr>)"
    using push rne st ne len deny sz cnt unfolding Push_def initPrep_def by simp
  have t: "tasks c = []" by (simp add: c early_def)
  have log: "rpcLog (cglobals c) = rpcLog g" using F by (simp add: c early_def initPrep_def)
  show ?thesis using run_no_tasks[OF t, of D] log F
    by (simp add: c early_def Add_def initPrep_def)
qed

lemma sv500: "surviving D0 (getValidationContextForTime D0 ''t'') req500 (labelCache g0) = req500"
  by (simp add: req500_def ex_defs eval_defs)

theorem C5_rate_limited_witness:
  "map_option (\<lambda>c. (returned c, tasks c,
                     DiscardedSamples (validation (cglobals c)) (RateLimited, ''t''),
                     DiscardedBytes (validation (cglobals c)) (RateLimited, ''t''),
                     rpcLog (cglobals (run D0 [Run 0, RecvDone] c))))
      (Push D0 (Inr ''t'') req500 g0)
   = Some (Some (Failure (HTTPError 429 RateLimitedErrorMsg [S ''t'', I 100, I 1, I 500])),
           [], 1, 500, [])"
proof -
  obtain c where c: "Push D0 (Inr ''t'') req500 g0 = Some c"
    by (simp add: req500_def ex_defs eval_defs)
  have sv: "req500 = surviving D0 (getValidationContextForTime D0 ''t'') req500 (labelCache g0)"
    by (simp add: sv500)
  have ne: "req500 \<noteq> []" by (simp add: req500_def)
  have deny: "\<not> AllowN D0 ''t'' (survivingBytes req500)"
    by (simp add: req500_def D0_def survivingBytes_def)
  have b: "survivingBytes req500 = 500" and n: "survivingCount req500 = 1"
    by (simp_all add: req500_def survivingBytes_def survivingCount_def)
  have lim: "Limit D0 ''t'' = 100" by (simp add: D0_def)
  have z: "DiscardedSamples (validation g0) (RateLimited, ''t'') = 0"
          "DiscardedBytes (validation g0) (RateLimited, ''t'') = 0" "rpcLog g0 = []"
    by (simp_all add: g0_def zeroMetrics_def)
  note A = C5_rate_limited[OF c sv ne deny, unfolded b n lim z]
  from A have "rpcLog (cglobals (run D0 [Run 0, RecvDone] c)) = []" by blast
  moreover from A
  have "returned c = Some (Failure (HTTPError 429 RateLimitedErrorMsg [S ''t'', I 100, I 1, I 500]))"
    and "DiscardedSamples (validation (cglobals c)) (RateLimited, ''t'') = 1"
    and "DiscardedBytes (validation (cglobals c)) (RateLimited, ''t'') = 500"
    and "tasks c = []"
    by simp_all
  ultimately show ?thesis unfolding c by simp
qed
section \<open>A failed ring lookup\<close>

text \<open>Claim C10. When the lookup of the ring fails for the routing key of a surviving
  stream (and, the lookups being made in order, succeeds for the keys before it),
  \<^verbatim>\<open>Push\<close> returns the error of that lookup; no goroutine is started, and under every
  interleaving no ingester receives an RPC, also not for the streams whose lookup had
  succeeded.\<close>

theorem C10_ring_lookup_failure:
  assumes push: "Push D (Inr uid) reqStreams g = Some c"
    and sv: "sv = surviving D (getValidationContextForTime D uid) reqStreams (labelCache g)"
    and allow: "AllowN D uid (survivingBytes sv)"
    and ks: "map (\<lambda>s. TokenFor D uid (Labels s)) sv = ks1 @ k # ks2"
    and ok: "\<forall>k'\<in>set ks1. \<exists>rs. ringGet D k' = Inr rs"
    and bad: "ringGet D k = Inl e"
  shows "returned c = Some (Failure e) \<and> tasks c = []
       \<and> (\<forall>sched. rpcLog (cglobals (run D sched c)) = rpcLog g)"
proof -
  have ne: "sv \<noteq> []" using ks by auto
  have rne: "reqStreams \<noteq> []" using sv ne by auto
  from Push_prepared[OF push rne] obtain st where
    st: "pushStreams D (getValidationContextForTime D uid) uid reqStreams (initPrep g) = Some st" .
  note R = pushStreams_refines[OF st]
  note F = pushStreams_frame[OF st, of uid]
  have sz: "validatedSamplesSize st = survivingBytes sv"
    and len: "length (streams st) = length sv"
    and keys: "keys st = ks1 @ k # ks2"
    using R sv ks by (simp_all add: initPrep_def survivingBytes_def)
  have c: "c = early (Failure e) (validationErr st) (globals st)"
    using push rne st ne len allow sz keys ringLoop_first_failure[OF ok bad]
    unfolding Push_def initPrep_def by simp
  have t: "tasks c = []" by (simp add: c early_def)
  show ?thesis using run_no_tasks[OF t, of D] F
    by (simp add: c early_def initPrep_def)
qed

lemma svAB: "surviving DringFails (getValidationContextForTime DringFails ''t'') reqAB (labelCache g0)
  = [\<lparr>Labels = ''{a=\"1\"}'', Entries = [\<lparr>Timestamp = 1, Line = ''x''\<rparr>]\<rparr>,
     \<lparr>Labels = ''{b=\"2\"}'', Entries = [\<lparr>Timestamp = 2, Line = ''y''\<rparr>]\<rparr>]"
  by (simp add: reqAB_def DringFails_def ex_defs eval_defs)

theorem C10_ring_lookup_failure_witness:
  "map_option (\<lambda>c. (returned c, tasks c,
                     rpcLog (cglobals (run DringFails [Run 0, Run 0, RecvDone] c))))
      (Push DringFails (Inr ''t'') reqAB g0)
   = Some (Some (Failure (Err ''empty ring'')), [], [])"
proof -
  obtain c where c: "Push DringFails (Inr ''t'') reqAB g0 = Some c"
    by (simp add: reqAB_def DringFails_def ex_defs eval_defs)
  note sv = svAB[symmetric]
  have allow: "AllowN DringFails ''t'' (survivingBytes
        [\<lparr>Labels = ''{a=\"1\"}'', Entries = [\<lparr>Timestamp = 1, Line = ''x''\<rparr>]\<rparr>,
         \<lparr>Labels = ''{b=\"2\"}'', Entries = [\<lparr>Timestamp = 2, Line = ''y''\<rparr>]\<rparr>])"
    by (simp add: DringFails_def D0_def survivingBytes_def)
  have ks: "map (\<lambda>s. TokenFor DringFails ''t'' (Labels s))
        [\<lparr>Labels = ''{a=\"1\"}'', Entries = [\<lparr>Timestamp = 1, Line = ''x''\<rparr>]\<rparr>,
         \<lparr>Labels = ''{b=\"2\"}'', Entries = [\<lparr>Timestamp = 2, Line = ''y''\<rparr>]\<rparr>]
        = [1] @ 2 # []"
    by (simp add: DringFails_def D0_def)
  have ok: "\<forall>k'\<in>set [1]. \<exists>rs. ringGet DringFails k' = Inr rs"
    by (simp add: DringFails_def D0_def)
  have bad: "ringGet DringFails 2 = Inl (Err ''empty ring'')"
    by (simp add: DringFails_def D0_def)
  have z: "rpcLog g0 = []" by (simp add: g0_def)
  note A = C10_ring_lookup_failure[OF c sv allow ks ok bad, unfolded z]
  from A have "rpcLog (cglobals (run DringFails [Run 0, Run 0, RecvDone] c)) = []" by blast
  moreover from A have "returned c = Some (Failure (Err ''empty ring''))" and "tasks c = []"
    by simp_all
  ultimately show ?thesis unfolding c by simp
qed

section \<open>The validation error that Push returns\<close>

text \<open>Claim C3, as the code has it. Whenever \<^verbatim>\<open>Push\<close> returns a response (at the second
  empty check, or after the \<^verbatim>\<open>done\<close> signal under any interleaving), the error returned
  with it is the last validation error that the request met, in input order, and nil
  when it met none: every invalid stream and every invalid entry assigns
  \<^verbatim>\<open>validationErr\<close> anew.\<close>

theorem C3_last_validation_error:
  assumes push: "Push D (Inr uid) reqStreams g = Some c"
    and ret: "returned (run D sched c) = Some (Response verr)"
  shows "verr = lastError (encounteredErrors D (getValidationContextForTime D uid) reqStreams
                             (labelCache g)) None"
proof -
  note P = Push_validationErr[OF push]
  from P have inv: "responseIsValidationErr c" by simp
  from run_response[OF inv, of D sched] ret
  have v: "verr = retValidationErr c"
    by (simp add: responseIsValidationErr_def)
  have "returned c = None \<or> (\<exists>v. returned c = Some (Response v))"
  proof (cases "returned c")
    case None
    then show ?thesis by simp
  next
    case (Some r)
    from run_returned_stable[OF Some, of D sched] ret have "r = Response verr" by simp
    with Some show ?thesis by simp
  qed
  with P v show ?thesis by simp
qed

text \<open>The request \<open>reqMixed\<close> is accepted by its one ingester; the response carries the
  error of the entry that lies too far in the future.\<close>

theorem C3_last_validation_error_witness:
  "map_option (\<lambda>c. returned (run D0 [Run 0, Run 0, Run 0, Run 0, RecvDone] c))
      (Push D0 (Inr ''t'') reqMixed g0)
   = Some (Some (Response (lastError
        (encounteredErrors D0 (getValidationContextForTime D0 ''t'') reqMixed (labelCache g0))
        None)))
   \<and> encounteredErrors D0 (getValidationContextForTime D0 ''t'') reqMixed (labelCache g0)
       = [Err ''too far in future'']"
proof -
  have ev: "map_option (\<lambda>c. returned (run D0 [Run 0, Run 0, Run 0, Run 0, RecvDone] c))
      (Push D0 (Inr ''t'') reqMixed g0) = Some (Some (Response (Some (Err ''too far in future''))))"
    by (simp add: reqMixed_def ex_defs eval_defs run_defs)
  then obtain c where c: "Push D0 (Inr ''t'') reqMixed g0 = Some c"
    and r: "returned (run D0 [Run 0, Run 0, Run 0, Run 0, RecvDone] c)
            = Some (Response (Some (Err ''too far in future'')))"
    by (cases "Push D0 (Inr ''t'') reqMixed g0") auto
  have e: "encounteredErrors D0 (getValidationContextForTime D0 ''t'') reqMixed (labelCache g0)
       = [Err ''too far in future'']"
    by (simp add: reqMixed_def ex_defs eval_defs)
  from C3_last_validation_error[OF c r] ev e show ?thesis by simp
qed

text \<open>Claim C3 as stated fails: of two streams with invalid labels, the error returned is
  that of the second stream, not that of the first.\<close>

theorem C3_first_error_counterexample:
  "map_option returned (Push D0 (Inr ''t'') reqBad2 g0)
     = Some (Some (Response (Some (HTTPError 400 InvalidLabelsErrorMsg
                                     [S ''also_not'', E (Err ''syntax error'')]))))
   \<and> encounteredErrors D0 (getValidationContextForTime D0 ''t'') reqBad2 (labelCache g0)
     = [HTTPError 400 InvalidLabelsErrorMsg [S ''not_a_labelset'', E (Err ''syntax error'')],
        HTTPError 400 InvalidLabelsErrorMsg [S ''also_not'', E (Err ''syntax error'')]]"
  by (simp add: reqBad2_def ex_defs eval_defs)

section \<open>Truncation comes before validation\<close>

lemma truncateLines_short:
  "truncateLines vc s m = Some (s1, m1) \<Longrightarrow> maxLineSizeTruncate vc \<Longrightarrow> maxLineSize vc \<noteq> 0 \<Longrightarrow>
   list_all (\<lambda>e. int (length (Line e)) \<le> maxLineSize vc) (Entries s1)"
  unfolding truncateLines_def
  by (auto split: option.splits dest: truncateEntries_short)

lemma validateEntries_short_cong:
  assumes "\<forall>lbls e. int (length (Line e)) \<le> m \<longrightarrow> V' vc lbls e = ValidateEntry D vc lbls e"
  shows "list_all (\<lambda>e. int (length (Line e)) \<le> m) es \<Longrightarrow>
         validateEntries (D\<lparr>ValidateEntry := V'\<rparr>) vc l es acc = validateEntries D vc l es acc"
proof (induction es arbitrary: acc)
  case Nil
  show ?case by simp
next
  case (Cons e es)
  obtain sz cnt verr where acc: "acc = (sz, cnt, verr)" by (cases acc)
  from Cons.prems have short: "int (length (Line e)) \<le> m"
    and rest: "list_all (\<lambda>e. int (length (Line e)) \<le> m) es" by simp_all
  from assms short have same: "V' vc l e = ValidateEntry D vc l e" by simp
  show ?case unfolding acc using same Cons.IH[OF rest]
    by (simp split: option.splits)
qed

lemma parseStreamLabels_ValidateEntry:
  "parseStreamLabels (D\<lparr>ValidateEntry := V'\<rparr>) vc key s cache = parseStreamLabels D vc key s cache"
  by (simp add: parseStreamLabels_def Let_def split: prod.splits option.splits sum.splits)

lemma pushStream_short_cong:
  assumes "maxLineSizeTruncate vc" and "maxLineSize vc \<noteq> 0"
    and "\<forall>lbls e. int (length (Line e)) \<le> maxLineSize vc \<longrightarrow> V' vc lbls e = ValidateEntry D vc lbls e"
  shows "pushStream (D\<lparr>ValidateEntry := V'\<rparr>) vc uid s st = pushStream D vc uid s st"
proof (cases "truncateLines vc s (validation (globals st))")
  case None
  then show ?thesis by (simp add: pushStream_def Let_def)
next
  case (Some r)
  obtain s1 m1 where r: "r = (s1, m1)" by (cases r)
  from truncateLines_short[OF Some[unfolded r] assms(1,2)]
  have short: "list_all (\<lambda>e. int (length (Line e)) \<le> maxLineSize vc) (Entries s1)" .
  note cong = validateEntries_short_cong[where V'=V' and D=D and vc=vc and m="maxLineSize vc", OF assms(3) short]
  show ?thesis using Some r cong
    by (simp add: pushStream_def Let_def parseStreamLabels_ValidateEntry
             split: prod.splits sum.splits)
qed

lemma pushStreams_short_cong:
  assumes "maxLineSizeTruncate vc" and "maxLineSize vc \<noteq> 0"
    and "\<forall>lbls e. int (length (Line e)) \<le> maxLineSize vc \<longrightarrow> V' vc lbls e = ValidateEntry D vc lbls e"
  shows "pushStreams (D\<lparr>ValidateEntry := V'\<rparr>) vc uid ss st = pushStreams D vc uid ss st"
  by (induction ss arbitrary: st) (simp_all add: pushStream_short_cong[where V'=V' and D=D and vc=vc, OF assms] split: option.splits)

lemma ringLoop_ValidateEntry:
  "ringLoop (D\<lparr>ValidateEntry := V'\<rparr>) i ks r = ringLoop D i ks r"
  by (induction ks arbitrary: i r) (simp_all split: sum.splits)

text \<open>Claim C8. With truncation enabled and a non-zero \<^verbatim>\<open>max_line_size\<close>, what \<^verbatim>\<open>Push\<close>
  does is the same for any two entry validators that agree on the entries whose line has
  at most \<^verbatim>\<open>max_line_size\<close> bytes: \<^verbatim>\<open>ValidateEntry\<close> is applied to truncated lines only, so
  its verdict on a longer line is never asked for, and no entry is rejected for the
  length of its line alone.\<close>

theorem C8_truncation_before_validation:
  assumes "maxLineSizeTruncate (getValidationContextForTime D uid)"
    and "maxLineSize (getValidationContextForTime D uid) \<noteq> 0"
    and "\<forall>lbls e. int (length (Line e)) \<le> maxLineSize (getValidationContextForTime D uid) \<longrightarrow>
           V' (getValidationContextForTime D uid) lbls e
             = ValidateEntry D (getValidationContextForTime D uid) lbls e"
  shows "Push (D\<lparr>ValidateEntry := V'\<rparr>) (Inr uid) reqStreams g = Push D (Inr uid) reqStreams g"
  by (simp add: Push_def ringLoop_ValidateEntry
           pushStreams_short_cong[where V'=V' and D=D and vc="getValidationContextForTime D uid", OF assms]
           split: sum.splits option.splits)

text \<open>The strict validator rejects the lines of five and four bytes of \<open>twoLongLines\<close>;
  in \<^verbatim>\<open>Push\<close> it sees them cut to two bytes, and both entries are kept without a
  validation error.\<close>

theorem C8_truncation_before_validation_witness:
  "Push (Dtrunc\<lparr>ValidateEntry := validateEntryStrict\<rparr>) (Inr ''t'') [twoLongLines] g0
     = Push Dtrunc (Inr ''t'') [twoLongLines] g0
   \<and> map_option (\<lambda>c. (retValidationErr c, cstore c streamVar))
        (Push (Dtrunc\<lparr>ValidateEntry := validateEntryStrict\<rparr>) (Inr ''t'') [twoLongLines] g0)
     = Some (None, \<lparr>Labels = ''{a=\"1\"}'',
                    Entries = [\<lparr>Timestamp = 1, Line = ''ab''\<rparr>, \<lparr>Timestamp = 2, Line = ''ab''\<rparr>]\<rparr>)
   \<and> validateEntryStrict (getValidationContextForTime Dtrunc ''t'') ''{a=\"1\"}''
        \<lparr>Timestamp = 1, Line = ''abcde''\<rparr> = Some (Err ''line too long'')"
proof -
  have t: "maxLineSizeTruncate (getValidationContextForTime Dtrunc ''t'')"
    and m: "maxLineSize (getValidationContextForTime Dtrunc ''t'') \<noteq> 0"
    by (simp_all add: Dtrunc_def D0_def vcTrunc2_def)
  have agree: "\<forall>lbls e. int (length (Line e)) \<le> maxLineSize (getValidationContextForTime Dtrunc ''t'') \<longrightarrow>
           validateEntryStrict (getValidationContextForTime Dtrunc ''t'') lbls e
             = ValidateEntry Dtrunc (getValidationContextForTime Dtrunc ''t'') lbls e"
    by (simp add: Dtrunc_def D0_def vcTrunc2_def validateEntryStrict_def validateEntrySpec_def)
  have ev: "map_option (\<lambda>c. (retValidationErr c, cstore c streamVar))
        (Push Dtrunc (Inr ''t'') [twoLongLines] g0)
     = Some (None, \<lparr>Labels = ''{a=\"1\"}'',
                    Entries = [\<lparr>Timestamp = 1, Line = ''ab''\<rparr>, \<lparr>Timestamp = 2, Line = ''ab''\<rparr>]\<rparr>)"
    by (simp add: Dtrunc_def twoLongLines_def vcTrunc2_def ex_defs eval_defs)
  have strict: "validateEntryStrict (getValidationContextForTime Dtrunc ''t'') ''{a=\"1\"}''
        \<lparr>Timestamp = 1, Line = ''abcde''\<rparr> = Some (Err ''line too long'')"
    by (simp add: Dtrunc_def D0_def vcTrunc2_def validateEntryStrict_def)
  from C8_truncation_before_validation[where V'=validateEntryStrict and D=Dtrunc and uid="''t''"
      and reqStreams="[twoLongLines]" and g=g0, OF t m agree] ev strict
  show ?thesis by simp
qed

section \<open>The label cache\<close>

lemma passedValidation_append:
  "passedValidation D pre k \<Longrightarrow> passedValidation D (pre @ calls) k"
  by (simp add: passedValidation_def)

lemma parseStreamLabels_items:
  assumes "(k, v) \<in> set (items (snd (parseStreamLabels D vc key s c)))"
  shows "(k, v) \<in> set (items c)
       \<or> (k = key \<and> canonicalOf D key v \<and> passedValidation D [(vc, key, s)] key)"
proof (cases "map_of (items c) key")
  case (Some w)
  then have "(key, w) \<in> set (items c)" by (rule map_of_SomeD)
  with assms Some show ?thesis
    by (auto simp: parseStreamLabels_def lru_Get_def)
next
  case None
  show ?thesis
  proof (cases "ParseLabels D key")
    case (Inl e)
    with assms None show ?thesis by (simp add: parseStreamLabels_def lru_Get_def)
  next
    case (Inr ls)
    show ?thesis
    proof (cases "ValidateLabels D vc ls s")
      case (Some e)
      with assms None Inr show ?thesis by (simp add: parseStreamLabels_def lru_Get_def)
    next
      case valid: None
      from assms None Inr valid
      have "(k, v) \<in> set ((key, LabelsString D ls) # items c)"
        by (auto simp: parseStreamLabels_def lru_Get_def lru_Add_def Let_def
                 split: if_splits dest: in_set_butlastD)
      with Inr valid show ?thesis
        by (auto simp: canonicalOf_def passedValidation_def)
    qed
  qed
qed

lemma parseStreamLabels_cacheInv:
  assumes "cacheInv D pre c"
  shows "cacheInv D (pre @ [(vc, key, s)]) (snd (parseStreamLabels D vc key s c))"
  unfolding cacheInv_def list_all_iff
proof (clarify)
  fix k v
  assume "(k, v) \<in> set (items (snd (parseStreamLabels D vc key s c)))"
  from parseStreamLabels_items[OF this]
  show "canonicalOf D k v \<and> passedValidation D (pre @ [(vc, key, s)]) k"
  proof
    assume "(k, v) \<in> set (items c)"
    with assms have "canonicalOf D k v" and "passedValidation D pre k"
      by (auto simp: cacheInv_def list_all_iff)
    then show ?thesis by (simp add: passedValidation_append)
  next
    assume "k = key \<and> canonicalOf D key v \<and> passedValidation D [(vc, key, s)] key"
    then show ?thesis by (simp add: passedValidation_def)
  qed
qed

lemma parseAll_cacheInv:
  "cacheInv D pre c \<Longrightarrow> cacheInv D (pre @ calls) (parseAll D calls c)"
proof (induction calls arbitrary: pre c)
  case Nil
  then show ?case by simp
next
  case (Cons call calls)
  obtain vc key s where call: "call = (vc, key, s)" by (cases call)
  from parseStreamLabels_cacheInv[OF Cons.prems, of vc key s]
  have "cacheInv D ((pre @ [(vc, key, s)]) @ calls)
          (parseAll D calls (snd (parseStreamLabels D vc key s c)))"
    by (rule Cons.IH)
  then show ?case by (simp add: call)
qed

text \<open>A call adds to the cache at most an entry for its own raw label string, and only
  when it missed the cache and the string parsed and passed label validation under the
  call's own validation context and stream.\<close>

lemma parseStreamLabels_new_items:
  assumes "(k, v) \<in> set (items (snd (parseStreamLabels D vc key s c)))"
  shows "(k, v) \<in> set (items c)
       \<or> (k = key \<and> fst (lru_Get key c) = None \<and>
            (case ParseLabels D key of
               Inl e \<Rightarrow> False
             | Inr ls \<Rightarrow> ValidateLabels D vc ls s = None \<and> v = LabelsString D ls))"
proof (cases "map_of (items c) key")
  case (Some w)
  then have "(key, w) \<in> set (items c)" by (rule map_of_SomeD)
  with assms Some show ?thesis
    by (auto simp: parseStreamLabels_def lru_Get_def)
next
  case None
  show ?thesis
  proof (cases "ParseLabels D key")
    case (Inl e)
    with assms None show ?thesis by (simp add: parseStreamLabels_def lru_Get_def)
  next
    case (Inr ls)
    show ?thesis
    proof (cases "ValidateLabels D vc ls s")
      case (Some e)
      with assms None Inr show ?thesis by (simp add: parseStreamLabels_def lru_Get_def)
    next
      case valid: None
      from assms None Inr valid
      have "(k, v) \<in> set ((key, LabelsString D ls) # items c)"
        by (auto simp: parseStreamLabels_def lru_Get_def lru_Add_def Let_def
                 split: if_splits dest: in_set_butlastD)
      with None Inr valid show ?thesis
        by (auto simp: lru_Get_def)
    qed
  qed
qed

lemma parseAll_inserted:
  "(k, v) \<in> set (items (parseAll D calls c)) \<Longrightarrow>
   (k, v) \<in> set (items c) \<or> insertedValidated D calls c k"
proof (induction calls arbitrary: c)
  case Nil
  then show ?case by simp
next
  case (Cons call calls)
  obtain vc key s where call: "call = (vc, key, s)" by (cases call)
  from Cons.prems have "(k, v) \<in> set (items (parseAll D calls (snd (parseStreamLabels D vc key s c))))"
    by (simp add: call)
  from Cons.IH[OF this]
  show ?case
  proof
    assume "(k, v) \<in> set (items (snd (parseStreamLabels D vc key s c)))"
    from parseStreamLabels_new_items[OF this] show ?thesis
      by (auto simp: call split: sum.splits)
  next
    assume "insertedValidated D calls (snd (parseStreamLabels D vc key s c)) k"
    then show ?thesis by (simp add: call)
  qed
qed

text \<open>Claim C9, as the code has it. In a cache that has served any sequence of calls of
  \<^verbatim>\<open>parseStreamLabels\<close> since \<^verbatim>\<open>lru.New\<close>, a hit for a raw label string returns the string
  that a fresh parse and canonicalisation of that string produces. Every entry of the
  cache is such a string for its key, and its key was inserted by one of those calls:
  a call for that key that missed the cache and whose input passed label validation
  under the validation context and the stream of that very call. The hit is not validated
  under the context of the present call: it equals the result of a fresh parse,
  validation and canonicalisation if and only if the string passes label validation
  under the present context and stream.\<close>

theorem C9_cache_hit_is_fresh_canonical_form:
  assumes cache: "cache = parseAll D calls (lru_New n)"
    and hit: "fst (lru_Get key cache) = Some v"
  shows "fst (parseStreamLabels D vc key s cache) = Inr v
       \<and> canonicalOf D key v
       \<and> passedValidation D calls key
       \<and> insertedValidated D calls (lru_New n) key
       \<and> list_all (\<lambda>(k, v'). canonicalOf D k v' \<and> passedValidation D calls k
                               \<and> insertedValidated D calls (lru_New n) k) (items cache)
       \<and> ((fst (parseStreamLabels D vc key s (lru_New n)) = Inr v)
            = (\<exists>ls. ParseLabels D key = Inr ls \<and> ValidateLabels D vc ls s = None))"
proof -
  have "cacheInv D [] (lru_New n)" by (simp add: cacheInv_def lru_New_def)
  from parseAll_cacheInv[OF this, of calls] cache
  have inv: "cacheInv D calls cache" by simp
  have ins: "insertedValidated D calls (lru_New n) k" if "(k, w) \<in> set (items cache)" for k w
    using parseAll_inserted[of k w D calls "lru_New n"] that cache
    by (simp add: lru_New_def)
  from hit have m: "map_of (items cache) key = Some v"
    by (auto simp: lru_Get_def split: option.splits)
  then have mem: "(key, v) \<in> set (items cache)" by (rule map_of_SomeD)
  with inv have can: "canonicalOf D key v" and val: "passedValidation D calls key"
    by (auto simp: cacheInv_def list_all_iff)
  have res: "fst (parseStreamLabels D vc key s cache) = Inr v"
    using m by (simp add: parseStreamLabels_def lru_Get_def)
  from can obtain ls where ls: "ParseLabels D key = Inr ls" and str: "LabelsString D ls = v"
    by (auto simp: canonicalOf_def split: sum.splits)
  have fresh: "(fst (parseStreamLabels D vc key s (lru_New n)) = Inr v)
            = (\<exists>ls. ParseLabels D key = Inr ls \<and> ValidateLabels D vc ls s = None)"
    using ls str
    by (cases "ValidateLabels D vc ls s")
       (simp_all add: parseStreamLabels_def lru_Get_def lru_New_def Let_def)
  have all: "list_all (\<lambda>(k, v'). canonicalOf D k v' \<and> passedValidation D calls k
                               \<and> insertedValidated D calls (lru_New n) k) (items cache)"
    using inv ins by (auto simp: cacheInv_def list_all_iff)
  from res can val ins[OF mem] all fresh show ?thesis by simp
qed

text \<open>After one call for the stream \<open>{a="1"}\<close> of tenant \<open>t\<close>, which misses the new cache
  and inserts, a call of tenant \<open>u\<close> hits; the stream passes validation under the limits
  of \<open>u\<close> too, and the hit is the result of a fresh run.\<close>

theorem C9_cache_hit_is_fresh_canonical_form_witness:
  "fst (parseStreamLabels D0 (vc0 ''u'') ''{a=\"1\"}'' (hd reqAB)
          (parseAll D0 [(vc0 ''t'', ''{a=\"1\"}'', hd reqAB)] (lru_New maxLabelCacheSize)))
     = Inr ''{a=\"1\"}''
   \<and> canonicalOf D0 ''{a=\"1\"}'' ''{a=\"1\"}''
   \<and> passedValidation D0 [(vc0 ''t'', ''{a=\"1\"}'', hd reqAB)] ''{a=\"1\"}''
   \<and> insertedValidated D0 [(vc0 ''t'', ''{a=\"1\"}'', hd reqAB)] (lru_New maxLabelCacheSize)
        ''{a=\"1\"}''
   \<and> fst (parseStreamLabels D0 (vc0 ''u'') ''{a=\"1\"}'' (hd reqAB) (lru_New maxLabelCacheSize))
     = Inr ''{a=\"1\"}''"
proof -
  have hit: "fst (lru_Get ''{a=\"1\"}''
                    (parseAll D0 [(vc0 ''t'', ''{a=\"1\"}'', hd reqAB)] (lru_New maxLabelCacheSize)))
             = Some ''{a=\"1\"}''"
    by (simp add: reqAB_def ex_defs eval_defs)
  have p: "ParseLabels D0 ''{a=\"1\"}'' = Inr [(''a'', ''1'')]"
    and v: "ValidateLabels D0 (vc0 ''u'') [(''a'', ''1'')] (hd reqAB) = None"
    by (simp_all add: ex_defs)
  then have ex: "\<exists>ls. ParseLabels D0 ''{a=\"1\"}'' = Inr ls
                     \<and> ValidateLabels D0 (vc0 ''u'') ls (hd reqAB) = None"
    by blast
  from C9_cache_hit_is_fresh_canonical_form[OF refl hit, of "vc0 ''u''" "hd reqAB"] ex
  show ?thesis by blast
qed

text \<open>Claim C9 as stated fails: the stream with two labels is cached by a call under
  limits that allow thirty labels; a later call under limits that allow one label hits
  and returns the cached string, where a fresh parse, validation and canonicalisation
  under these limits fails.\<close>

theorem C9_hit_skips_current_validation_counterexample:
  "fst (parseStreamLabels D0 vcOneLabel ''{a=\"1\", b=\"2\"}'' streamTwoLabels
          (parseAll D0 [(vc0 ''a'', ''{a=\"1\", b=\"2\"}'', streamTwoLabels)]
             (lru_New maxLabelCacheSize)))
     = Inr ''{a=\"1\", b=\"2\"}''
   \<and> fst (parseStreamLabels D0 vcOneLabel ''{a=\"1\", b=\"2\"}'' streamTwoLabels
            (lru_New maxLabelCacheSize))
     = Inl (Err ''max label names per series'')"
  by (simp add: vcOneLabel_def streamTwoLabels_def ex_defs eval_defs)

section \<open>The fan-out\<close>

text \<open>Claim C7, at a request with two different streams that are routed to the same
  ingester. Both streams survive the preparation, but the payload of the RPC holds the
  second stream twice: every stream tracker holds \<^verbatim>\<open>&stream\<close>, the address of the one
  range variable, and \<^verbatim>\<open>sendToIngester\<close> reads it after the loop has ended.\<close>

theorem C7_payload_repeats_last_stream:
  "(case Push D0 (Inr ''t'') reqAB g0 of
      None \<Rightarrow> None
    | Some c \<Rightarrow> Some (rpcLog (cglobals (run D0 [Run 0] c))))
     = Some [(''ingester-1'',
              [\<lparr>Labels = ''{b=\"2\"}'', Entries = [\<lparr>Timestamp = 2, Line = ''y''\<rparr>]\<rparr>,
               \<lparr>Labels = ''{b=\"2\"}'', Entries = [\<lparr>Timestamp = 2, Line = ''y''\<rparr>]\<rparr>])]
   \<and> surviving D0 (getValidationContextForTime D0 ''t'') reqAB (labelCache g0)
     = [\<lparr>Labels = ''{a=\"1\"}'', Entries = [\<lparr>Timestamp = 1, Line = ''x''\<rparr>]\<rparr>,
        \<lparr>Labels = ''{b=\"2\"}'', Entries = [\<lparr>Timestamp = 2, Line = ''y''\<rparr>]\<rparr>]"
  by (simp add: reqAB_def ex_defs eval_defs run_defs streamVar_def)

text \<open>Claim C1, at a request with two streams, each replicated to three ingesters of its
  own with one tolerated error (so each needs two acknowledgements). The three ingesters
  of the first stream acknowledge; the third acknowledgement takes the success bucket of
  the first stream from 0 to -1, which is not \<^verbatim>\<open>> 0\<close> either, so \<^verbatim>\<open>pending\<close> is
  decremented a second time for the same stream and reaches 0. The value is sent on
  \<^verbatim>\<open>done\<close> and \<^verbatim>\<open>Push\<close> returns success while the success bucket of the second stream is
  still 2 and none of its ingesters has received an RPC.\<close>

theorem C1_success_without_quorum:
  "(case Push DtwoSets (Inr ''t'') reqAB g0 of
      None \<Rightarrow> None
    | Some c \<Rightarrow> Some (observe (run DtwoSets schedFirstStream c)))
   = Some (Some (Response None), [(-1, 1), (2, 1)], 0,
           [''ingester-1'', ''ingester-2'', ''ingester-3''], 1, 0)"
  by (simp add: reqAB_def DtwoSets_def schedFirstStream_def ex_defs eval_defs run_defs observe_def)

text \<open>Claim C2, at a request with one stream, replication factor 3 and one tolerated
  error, where the first ingester fails and the other two succeed. All three goroutines
  run to their end: the success bucket and the failure bucket both end at 0. But the one
  failure has taken the failure bucket from 1 to 0, which is not \<^verbatim>\<open>> 0\<close>, so the error
  was sent on \<^verbatim>\<open>err\<close>; the \<^verbatim>\<open>select\<close> of \<^verbatim>\<open>Push\<close> takes it, and \<^verbatim>\<open>Push\<close> returns the
  error of the RPC.\<close>

theorem C2_one_failure_fails_the_push:
  "(case Push DoneFails (Inr ''t'') [hd reqAB] g0 of
      None \<Rightarrow> None
    | Some c \<Rightarrow> Some (observe (run DoneFails (schedAll @ [RecvErr]) c)))
   = Some (Some (Failure (Err ''rpc failed'')), [(0, 0)], 0,
           [''ingester-1'', ''ingester-2'', ''ingester-3''], 1, 1)"
  by (simp add: reqAB_def DoneFails_def schedAll_def ex_defs eval_defs run_defs observe_def)

text \<open>Claim C6, at the same request: when the three goroutines have run to their end and
  \<^verbatim>\<open>Push\<close> still waits, the channel \<^verbatim>\<open>err\<close> holds the error of the failed RPC and the
  channel \<^verbatim>\<open>done\<close> holds a value, for the same request.\<close>

theorem C6_done_and_err_both_signalled:
  "(case Push DoneFails (Inr ''t'') [hd reqAB] g0 of
      None \<Rightarrow> None
    | Some c \<Rightarrow> Some (returned (run DoneFails schedAll c),
                       errCh (tracker (run DoneFails schedAll c)),
                       doneCh (tracker (run DoneFails schedAll c))))
   = Some (None, [Err ''rpc failed''], [()])"
  by (simp add: reqAB_def DoneFails_def schedAll_def ex_defs eval_defs run_defs)

section \<open>At most one signal on each channel\<close>

text \<open>For a request whose goroutines have fewer than \<open>2^32\<close> stream visits to make in
  all, every interleaving sends at most one value on \<^verbatim>\<open>done\<close> and at most one value on
  \<^verbatim>\<open>err\<close>: \<^verbatim>\<open>failed.Swap(true)\<close> returns false once, and \<^verbatim>\<open>pending.Dec()\<close> returns zero
  once.\<close>

lemma filter_update_count:
  "n < length xs \<Longrightarrow>
   length (filter P (xs[n := y])) + (if P (xs ! n) then 1 else 0)
     = length (filter P xs) + (if P y then 1 else 0)"
proof (induction xs arbitrary: n)
  case Nil
  then show ?case by simp
next
  case (Cons x xs)
  show ?case
  proof (cases n)
    case 0
    then show ?thesis by simp
  next
    case (Suc k)
    with Cons.prems have "k < length xs" by simp
    from Cons.IH[OF this] Suc show ?thesis by simp
  qed
qed

lemma standing_setAt:
  "n < length (tasks c) \<Longrightarrow>
   standing P (setAt n p c) + (if P (at (tasks c ! n)) then 1 else 0)
     = standing P c + (if P p then 1 else 0)"
  using filter_update_count[of n "tasks c" "\<lambda>t. P (at t)" "(tasks c ! n)\<lparr>at := p\<rparr>"]
  by (simp add: standing_def setAt_def)

lemma setAt_fields [simp]:
  "errSent (setAt n p c) = errSent c" "doneSent (setAt n p c) = doneSent c"
  "tracker (setAt n p c) = tracker c" "trackers (setAt n p c) = trackers c"
  "returned (setAt n p c) = returned c" "cglobals (setAt n p c) = cglobals c"
  "length (tasks (setAt n p c)) = length (tasks c)"
  by (simp_all add: setAt_def)

lemma standing_upd [simp]:
  "standing P (c\<lparr>trackers := ts\<rparr>) = standing P c"
  "standing P (c\<lparr>tracker := tr\<rparr>) = standing P c"
  "standing P (c\<lparr>cglobals := g\<rparr>) = standing P c"
  "standing P (c\<lparr>errSent := k\<rparr>) = standing P c"
  "standing P (c\<lparr>doneSent := k\<rparr>) = standing P c"
  "standing P (c\<lparr>returned := r\<rparr>) = standing P c"
  by (simp_all add: standing_def)

lemma sendToIngester_errInv:
  assumes "errInv c" and n: "n < length (tasks c)" and p: "at (tasks c ! n) = p"
  shows "errInv (sendToIngester D n t p c)"
proof (cases "(D, n, t, p, c)" rule: sendToIngester.cases)
  case (1 D' n' t' c')
  then have pp: "p = Spawned" by simp
  obtain r g' where e: "executePushRequest D (ingester t) (map (\<lambda>i. cstore c (stream (trackers c ! i))) (tstreams t)) (cglobals c) = (r, g')"
    by (cases "executePushRequest D (ingester t) (map (\<lambda>i. cstore c (stream (trackers c ! i))) (tstreams t)) (cglobals c)")
  have n': "n < length (tasks (c\<lparr>cglobals := g'\<rparr>))" using n by simp
  from standing_setAt[OF n', of isErrSend "Loop r (tstreams t)"] p[unfolded pp] assms(1)
  show ?thesis unfolding pp using e by (auto simp: errInv_def Let_def split: if_splits)
next
  case (2 D' n' t' r c')
  then have pp: "p = Loop r []" by simp
  show ?thesis unfolding pp using assms(1) by simp
next
  case (3 D' n' t' i rest c')
  then have pp: "p = Loop None (i # rest)" by simp
  let ?c = "c\<lparr>trackers := (trackers c)[i := (trackers c ! i)\<lparr>successBucket := successBucket (trackers c ! i) - 1\<rparr>]\<rparr>"
  have n': "n < length (tasks ?c)" using n by simp
  from standing_setAt[OF n', of isErrSend "Loop None rest"]
       standing_setAt[OF n', of isErrSend "PendingDec rest"] p[unfolded pp] assms(1)
  show ?thesis unfolding pp by (auto simp: errInv_def Let_def split: if_splits)
next
  case (4 D' n' t' rest c')
  then have pp: "p = PendingDec rest" by simp
  let ?c = "c\<lparr>tracker := (tracker c)\<lparr>pending := pending (tracker c) - 1\<rparr>\<rparr>"
  have n': "n < length (tasks ?c)" using n by simp
  from standing_setAt[OF n', of isErrSend "Loop None rest"]
       standing_setAt[OF n', of isErrSend "DoneSend rest"] p[unfolded pp] assms(1)
  show ?thesis unfolding pp by (auto simp: errInv_def Let_def split: if_splits)
next
  case (5 D' n' t' rest c')
  then have pp: "p = DoneSend rest" by simp
  let ?c = "c\<lparr>tracker := (tracker c)\<lparr>doneCh := doneCh (tracker c) @ [()]\<rparr>, doneSent := doneSent c + 1\<rparr>"
  have n': "n < length (tasks ?c)" using n by simp
  from standing_setAt[OF n', of isErrSend "Loop None rest"] p[unfolded pp] assms(1)
  show ?thesis unfolding pp by (auto simp: errInv_def Let_def split: if_splits)
next
  case (6 D' n' t' e i rest c')
  then have pp: "p = Loop (Some e) (i # rest)" by simp
  let ?c = "c\<lparr>trackers := (trackers c)[i := (trackers c ! i)\<lparr>failureBucket := failureBucket (trackers c ! i) - 1\<rparr>]\<rparr>"
  have n': "n < length (tasks ?c)" using n by simp
  from standing_setAt[OF n', of isErrSend "Loop (Some e) rest"]
       standing_setAt[OF n', of isErrSend "FailedSwap e rest"] p[unfolded pp] assms(1)
  show ?thesis unfolding pp by (auto simp: errInv_def Let_def split: if_splits)
next
  case (7 D' n' t' e rest c')
  then have pp: "p = FailedSwap e rest" by simp
  let ?c = "c\<lparr>tracker := (tracker c)\<lparr>failed := True\<rparr>\<rparr>"
  have n': "n < length (tasks ?c)" using n by simp
  from standing_setAt[OF n', of isErrSend "Loop (Some e) rest"]
       standing_setAt[OF n', of isErrSend "ErrSend e rest"] p[unfolded pp] assms(1)
  show ?thesis unfolding pp by (auto simp: errInv_def Let_def split: if_splits)
next
  case (8 D' n' t' e rest c')
  then have pp: "p = ErrSend e rest" by simp
  let ?c = "c\<lparr>tracker := (tracker c)\<lparr>errCh := errCh (tracker c) @ [e]\<rparr>, errSent := errSent c + 1\<rparr>"
  have n': "n < length (tasks ?c)" using n by simp
  from standing_setAt[OF n', of isErrSend "Loop (Some e) rest"] p[unfolded pp] assms(1)
  show ?thesis unfolding pp by (auto simp: errInv_def Let_def split: if_splits)
qed

lemma sum_list_update_count:
  "n < length xs \<Longrightarrow>
   sum_list (map f (xs[n := y])) + f (xs ! n) = sum_list (map f xs) + (f y :: nat)"
proof (induction xs arbitrary: n)
  case Nil
  then show ?case by simp
next
  case (Cons x xs)
  show ?case
  proof (cases n)
    case 0
    then show ?thesis by simp
  next
    case (Suc k)
    with Cons.prems have "k < length xs" by simp
    from Cons.IH[OF this] Suc show ?thesis by simp
  qed
qed

lemma remaining_setAt:
  "n < length (tasks c) \<Longrightarrow>
   remaining (setAt n p c) + visits (at (tasks c ! n)) (tstreams (tasks c ! n))
     = remaining c + visits p (tstreams (tasks c ! n))"
  using sum_list_update_count[of n "tasks c" "\<lambda>t. visits (at t) (tstreams t)" "(tasks c ! n)\<lparr>at := p\<rparr>"]
  by (simp add: remaining_def setAt_def)

lemma remaining_upd [simp]:
  "remaining (c\<lparr>trackers := ts\<rparr>) = remaining c"
  "remaining (c\<lparr>tracker := tr\<rparr>) = remaining c"
  "remaining (c\<lparr>cglobals := g\<rparr>) = remaining c"
  "remaining (c\<lparr>errSent := k\<rparr>) = remaining c"
  "remaining (c\<lparr>doneSent := k\<rparr>) = remaining c"
  "remaining (c\<lparr>returned := r\<rparr>) = remaining c"
  by (simp_all add: remaining_def)

lemma dec_zero: "(x :: 32 word) - 1 = 0 \<longleftrightarrow> x = 1"
  by auto

lemma unat_neg_one: "unat (- (1 :: 32 word)) = 2 ^ 32 - 1"
  by (simp add: unsigned_minus_1_eq_mask mask_eq_exp_minus_1)

lemma unat_neg_dec:
  assumes "unat (- (x :: 32 word)) + 1 < 2 ^ 32"
  shows "unat (- (x - 1)) = unat (- x) + 1"
proof -
  have "- (x - 1) = - x + 1" by simp
  moreover have "unat (- x + 1) = unat (- x) + unat (1 :: 32 word)"
    using assms by (subst unat_add_lem[THEN iffD1]) simp_all
  ultimately show ?thesis by simp
qed

lemma pending_not_one:
  assumes "unat (- (x :: 32 word)) + r < 2 ^ 32" and "0 < r"
  shows "x \<noteq> 1"
proof
  assume "x = 1"
  with assms unat_neg_one show False by simp
qed

lemma sendToIngester_doneInv:
  assumes inv: "doneInv c" and n: "n < length (tasks c)"
    and t: "t = tasks c ! n" and p: "at (tasks c ! n) = p"
  shows "doneInv (sendToIngester D n t p c)"
proof (cases "(D, n, t, p, c)" rule: sendToIngester.cases)
  case (1 D' n' t' c')
  then have pp: "p = Spawned" by simp
  obtain r g' where e: "executePushRequest D (ingester t) (map (\<lambda>i. cstore c (stream (trackers c ! i))) (tstreams t)) (cglobals c) = (r, g')"
    by (cases "executePushRequest D (ingester t) (map (\<lambda>i. cstore c (stream (trackers c ! i))) (tstreams t)) (cglobals c)")
  have n': "n < length (tasks (c\<lparr>cglobals := g'\<rparr>))" using n by simp
  from standing_setAt[OF n', of isDoneSend "Loop r (tstreams t)"]
       remaining_setAt[OF n', of "Loop r (tstreams t)"] p[unfolded pp] inv t
  show ?thesis unfolding pp using e by (auto simp: doneInv_def Let_def split: if_splits)
next
  case (2 D' n' t' r c')
  then have pp: "p = Loop r []" by simp
  show ?thesis unfolding pp using inv by simp
next
  case (3 D' n' t' i rest c')
  then have pp: "p = Loop None (i # rest)" by simp
  let ?c = "c\<lparr>trackers := (trackers c)[i := (trackers c ! i)\<lparr>successBucket := successBucket (trackers c ! i) - 1\<rparr>]\<rparr>"
  have n': "n < length (tasks ?c)" using n by simp
  from standing_setAt[OF n', of isDoneSend "Loop None rest"]
       standing_setAt[OF n', of isDoneSend "PendingDec rest"]
       remaining_setAt[OF n', of "Loop None rest"]
       remaining_setAt[OF n', of "PendingDec rest"] p[unfolded pp] inv
  show ?thesis unfolding pp by (auto simp: doneInv_def Let_def split: if_splits)
next
  case (4 D' n' t' rest c')
  then have pp: "p = PendingDec rest" by simp
  let ?c = "c\<lparr>tracker := (tracker c)\<lparr>pending := pending (tracker c) - 1\<rparr>\<rparr>"
  have n': "n < length (tasks ?c)" using n by simp
  note S1 = standing_setAt[OF n', of isDoneSend "Loop None rest"]
  note S2 = standing_setAt[OF n', of isDoneSend "DoneSend rest"]
  note R1 = remaining_setAt[OF n', of "Loop None rest"]
  note R2 = remaining_setAt[OF n', of "DoneSend rest"]
  have a: "at (tasks c ! n) = PendingDec rest" using p pp by simp
  have rem: "remaining c = remaining (setAt n (Loop None rest) ?c) + 1"
    and rem2: "remaining c = remaining (setAt n (DoneSend rest) ?c) + 1"
    using R1 R2 a by simp_all
  have st1: "standing isDoneSend (setAt n (Loop None rest) ?c) = standing isDoneSend c"
    and st2: "standing isDoneSend (setAt n (DoneSend rest) ?c) = standing isDoneSend c + 1"
    using S1 S2 a by simp_all
  show ?thesis
  proof (cases "doneSent c + standing isDoneSend c = 1")
    case True
    with inv have b: "unat (- pending (tracker c)) + remaining c < 2 ^ 32"
      by (simp add: doneInv_def)
    from pending_not_one[OF b] rem have ne: "pending (tracker c) - 1 \<noteq> 0"
      by (simp add: dec_zero)
    from b rem have "unat (- pending (tracker c)) + 1 < 2 ^ 32" by simp
    from unat_neg_dec[OF this]
    have u: "unat (- (pending (tracker c) - 1)) = unat (- pending (tracker c)) + 1" .
    show ?thesis unfolding pp using ne u b rem st1 True inv
      by (simp add: doneInv_def Let_def)
  next
    case False
    with inv have k: "doneSent c + standing isDoneSend c = 0" and r: "remaining c < 2 ^ 32"
      by (auto simp: doneInv_def)
    show ?thesis
    proof (cases "pending (tracker c) - 1 = 0")
      case True
      then show ?thesis unfolding pp using k r rem2 st2
        by (simp add: doneInv_def Let_def)
    next
      case False
      then show ?thesis unfolding pp using k r rem st1
        by (simp add: doneInv_def Let_def)
    qed
  qed
next
  case (5 D' n' t' rest c')
  then have pp: "p = DoneSend rest" by simp
  let ?c = "c\<lparr>tracker := (tracker c)\<lparr>doneCh := doneCh (tracker c) @ [()]\<rparr>, doneSent := doneSent c + 1\<rparr>"
  have n': "n < length (tasks ?c)" using n by simp
  from standing_setAt[OF n', of isDoneSend "Loop None rest"]
       remaining_setAt[OF n', of "Loop None rest"] p[unfolded pp] inv
  show ?thesis unfolding pp by (auto simp: doneInv_def Let_def split: if_splits)
next
  case (6 D' n' t' e i rest c')
  then have pp: "p = Loop (Some e) (i # rest)" by simp
  let ?c = "c\<lparr>trackers := (trackers c)[i := (trackers c ! i)\<lparr>failureBucket := failureBucket (trackers c ! i) - 1\<rparr>]\<rparr>"
  have n': "n < length (tasks ?c)" using n by simp
  from standing_setAt[OF n', of isDoneSend "Loop (Some e) rest"]
       standing_setAt[OF n', of isDoneSend "FailedSwap e rest"]
       remaining_setAt[OF n', of "Loop (Some e) rest"]
       remaining_setAt[OF n', of "FailedSwap e rest"] p[unfolded pp] inv
  show ?thesis unfolding pp by (auto simp: doneInv_def Let_def split: if_splits)
next
  case (7 D' n' t' e rest c')
  then have pp: "p = FailedSwap e rest" by simp
  let ?c = "c\<lparr>tracker := (tracker c)\<lparr>failed := True\<rparr>\<rparr>"
  have n': "n < length (tasks ?c)" using n by simp
  from standing_setAt[OF n', of isDoneSend "Loop (Some e) rest"]
       standing_setAt[OF n', of isDoneSend "ErrSend e rest"]
       remaining_setAt[OF n', of "Loop (Some e) rest"]
       remaining_setAt[OF n', of "ErrSend e rest"] p[unfolded pp] inv
  show ?thesis unfolding pp by (auto simp: doneInv_def Let_def split: if_splits)
next
  case (8 D' n' t' e rest c')
  then have pp: "p = ErrSend e rest" by simp
  let ?c = "c\<lparr>tracker := (tracker c)\<lparr>errCh := errCh (tracker c) @ [e]\<rparr>, errSent := errSent c + 1\<rparr>"
  have n': "n < length (tasks ?c)" using n by simp
  from standing_setAt[OF n', of isDoneSend "Loop (Some e) rest"]
       remaining_setAt[OF n', of "Loop (Some e) rest"] p[unfolded pp] inv
  show ?thesis unfolding pp by (auto simp: doneInv_def Let_def split: if_splits)
qed

lemma step_signals:
  assumes "errInv c" and "doneInv c"
  shows "errInv (step D a c) \<and> doneInv (step D a c)"
proof (cases a)
  case (Run n)
  show ?thesis
  proof (cases "n < length (tasks c)")
    case True
    from sendToIngester_errInv[OF assms(1) True refl, of D "tasks c ! n"]
         sendToIngester_doneInv[OF assms(2) True refl refl, of D]
    show ?thesis using Run True by simp
  next
    case False
    with Run assms show ?thesis by simp
  qed
next
  case RecvErr
  with assms show ?thesis
    by (auto simp: errInv_def doneInv_def split: option.splits list.splits)
next
  case RecvDone
  with assms show ?thesis
    by (auto simp: errInv_def doneInv_def split: option.splits list.splits)
next
  case (CtxDone e)
  with assms show ?thesis
    by (auto simp: errInv_def doneInv_def split: option.splits)
qed

lemma run_signals:
  "errInv c \<Longrightarrow> doneInv c \<Longrightarrow> errInv (run D sched c) \<and> doneInv (run D sched c)"
proof (induction sched arbitrary: c)
  case Nil
  then show ?case by simp
next
  case (Cons a sched)
  from step_signals[OF Cons.prems, of D a] Cons.IH[of "step D a c"]
  show ?case by simp
qed

lemma standing_Spawned:
  "\<not> P Spawned \<Longrightarrow> standing P (c\<lparr>tasks := map (\<lambda>x. \<lparr>ingester = f x, tstreams = h x, at = Spawned\<rparr>) xs\<rparr>) = 0"
  by (simp add: standing_def)

lemma Push_signals:
  assumes "Push D tenantID reqStreams g = Some c" and "remaining c < 2 ^ 32"
  shows "errInv c \<and> doneInv c"
  using assms unfolding Push_def
  by (auto simp: errInv_def doneInv_def early_def standing_def o_def
           split: sum.splits if_splits option.splits prod.splits)

lemma at_most_one_signal:
  assumes "Push D tenantID reqStreams g = Some c" and "remaining c < 2 ^ 32"
  shows "doneSent (run D sched c) \<le> 1 \<and> errSent (run D sched c) \<le> 1"
proof -
  from Push_signals[OF assms] have "errInv c" and "doneInv c" by simp_all
  from run_signals[OF this, of D sched]
  show ?thesis by (auto simp: errInv_def doneInv_def split: if_splits)
qed

section \<open>The stream trackers share the range variable\<close>

lemma routeInstances_rstreams: "rstreams (routeInstances i ings r) = rstreams r"
  by (induction ings arbitrary: r) simp_all

lemma ringLoop_stream:
  "list_all (\<lambda>t. stream t = a) (rstreams r) \<Longrightarrow> ringLoop D i ks r = Inr r' \<Longrightarrow>
   list_all (\<lambda>t. stream t = a) (rstreams r')"
proof (induction ks arbitrary: i r)
  case Nil
  then show ?case by simp
next
  case (Cons k ks)
  from Cons.prems(2) obtain rs where rs: "ringGet D k = Inr rs"
    by (cases "ringGet D k") simp_all
  let ?t = "(rstreams r ! i)
       \<lparr>successBucket := word_of_int (int (length (Instances rs)) - MaxErrors rs),
        failureBucket := word_of_int (MaxErrors rs)\<rparr>"
  let ?r = "routeInstances i (Instances rs) (r\<lparr>rstreams := (rstreams r)[i := ?t]\<rparr>)"
  have "list_all (\<lambda>t. stream t = a) ((rstreams r)[i := ?t])"
  proof (cases "i < length (rstreams r)")
    case True
    with Cons.prems(1) have "stream ?t = a" by (simp add: list_all_length)
    with Cons.prems(1) show ?thesis
      by (auto simp: list_all_iff dest!: set_update_subset_insert[THEN subsetD])
  next
    case False
    then have "(rstreams r)[i := ?t] = rstreams r" by (simp add: list_update_beyond)
    with Cons.prems(1) show ?thesis by simp
  qed
  then have "list_all (\<lambda>t. stream t = a) (rstreams ?r)"
    by (simp add: routeInstances_rstreams)
  moreover from Cons.prems(2) rs have "ringLoop D (Suc i) ks ?r = Inr r'" by simp
  ultimately show ?case by (rule Cons.IH)
qed

text \<open>Whatever the request, every stream tracker that \<^verbatim>\<open>Push\<close> hands to the goroutines
  holds the address of the range variable.\<close>

lemma Push_trackers_share_the_range_variable:
  assumes "Push D tenantID reqStreams g = Some c"
  shows "list_all (\<lambda>t. stream t = streamVar) (trackers c)"
proof (cases tenantID)
  case (Inl e)
  with assms show ?thesis by (auto simp: Push_def early_def)
next
  case (Inr uid)
  show ?thesis
  proof (cases "reqStreams = []")
    case True
    with assms Inr show ?thesis by (auto simp: Push_def early_def)
  next
    case False
    from Push_prepared[OF assms[unfolded Inr] False] obtain st where
      st: "pushStreams D (getValidationContextForTime D uid) uid reqStreams (initPrep g) = Some st" .
    from pushStreams_refines[OF st]
    have a: "list_all (\<lambda>t. stream t = streamVar) (streams st)"
      by (simp add: initPrep_def list_all_iff)
    show ?thesis
      using assms Inr False st a
            ringLoop_stream[of streamVar "\<lparr>rstreams = streams st, streamsByIngester = [],
                                           descByIngester = []\<rparr>" D 0 "keys st"]
      unfolding Push_def initPrep_def
      by (auto simp: early_def split: if_splits sum.splits)
  qed
qed

end
